theory Spec2Isabelle
  imports Main
begin

section \<open>JavaScript strings\<close>

text \<open>
  A JavaScript string is a sequence of UTF-16 code units; \<open>length\<close>, \<open>slice\<close> and the
  offsets of a regular-expression match all count code units.  A code unit is modelled as
  a natural number (every value below \<open>2^16\<close> is one), a string as a list of them.  The
  literals of the source are ASCII and are written through \<open>js\<close>.
\<close>

type_synonym jsstring = "nat list"

definition js :: "string \<Rightarrow> jsstring" where
  "js s = map of_char s"

text \<open>\<^verbatim>\<open>text.slice(a, b)\<close> for \<open>0 \<le> a\<close> and \<open>0 \<le> b\<close> (the only way the source calls it).\<close>

definition slice :: "jsstring \<Rightarrow> nat \<Rightarrow> nat \<Rightarrow> jsstring" where
  "slice s a b = take (b - a) (drop a s)"

text \<open>
  \<^verbatim>\<open>toLowerCase\<close> on the ASCII letters.  The source applies it to tag names and to the
  model's answer before \<^verbatim>\<open>includes("not a tech term")\<close>; no code unit outside \<open>A-Z\<close>
  lower-cases to a letter of that phrase or of the four tag names, so the comparisons
  of the source are decided by the ASCII letters alone.
\<close>

definition lowerUnit :: "nat \<Rightarrow> nat" where
  "lowerUnit c = (if 65 \<le> c \<and> c \<le> 90 then c + 32 else c)"

definition toLowerCase :: "jsstring \<Rightarrow> jsstring" where
  "toLowerCase s = map lowerUnit s"

text \<open>
  Membership of a code unit in a union of inclusive ranges, as in a character class.
\<close>

definition in_cls :: "nat \<Rightarrow> (nat \<times> nat) list \<Rightarrow> bool" where
  "in_cls c rs = list_ex (\<lambda>(lo, hi). lo \<le> c \<and> c \<le> hi) rs"

text \<open>
  \<^verbatim>\<open>String.prototype.trim\<close> removes the white space and line terminators of
  ECMAScript from both ends; \<open>includesStr\<close> is \<^verbatim>\<open>String.prototype.includes\<close>, the
  substring test.
\<close>

definition isSpace :: "nat \<Rightarrow> bool" where
  "isSpace c =
     in_cls c [(9, 13), (32, 32), (160, 160), (5760, 5760), (8192, 8202), (8232, 8233),
               (8239, 8239), (8287, 8287), (12288, 12288), (65279, 65279)]"

definition trim :: "jsstring \<Rightarrow> jsstring" where
  "trim s = rev (dropWhile isSpace (rev (dropWhile isSpace s)))"

definition includesStr :: "jsstring \<Rightarrow> jsstring \<Rightarrow> bool" where
  "includesStr s sub = list_ex (\<lambda>i. take (length sub) (drop i s) = sub) [0..<Suc (length s)]"

section \<open>The regular-expression matcher\<close>

text \<open>
  The pattern of \<^verbatim>\<open>processTextNode\<close> uses character classes, literals, sequence,
  alternation, greedy quantifiers and the assertion \<^verbatim>\<open>\b\<close>.  The matcher follows the
  backtracking semantics of ECMAScript: \<open>ends r x\<close> lists, in the order in which the
  backtracking matcher reaches them, the states in which \<open>r\<close> can stop when started in
  \<open>x\<close>; the match of a whole pattern is the first of them.  A state is the code unit
  before the current position (none at the start of the text) and the text that is left.
\<close>

datatype regex =
    Eps
  | Cls "(nat \<times> nat) list"
  | Seq regex regex
  | Alt regex regex
  | Rep nat "nat option" regex
  | WordB

type_synonym mstate = "nat option \<times> jsstring"

text \<open>\<^verbatim>\<open>\w\<close> without the \<^verbatim>\<open>u\<close> and \<^verbatim>\<open>i\<close> flags: \<open>[A-Za-z0-9_]\<close>.\<close>

definition is_word :: "nat \<Rightarrow> bool" where
  "is_word c = in_cls c [(97, 122), (65, 90), (48, 57), (95, 95)]"

fun at_boundary :: "mstate \<Rightarrow> bool" where
  "at_boundary (prev, rest) =
     ((case prev of None \<Rightarrow> False | Some c \<Rightarrow> is_word c) \<noteq>
      (case rest of [] \<Rightarrow> False | c # _ \<Rightarrow> is_word c))"

text \<open>
  The quantifier \<open>{mn,mx}\<close> (\<open>mx = None\<close> is no upper bound), as ECMAScript's
  RepeatMatcher: stop when \<open>mx\<close> is used up; otherwise run the body once more and
  repeat, and only then, if \<open>mn\<close> is used up, try to go on without another round
  (greedy).  A round that consumes nothing after \<open>mn\<close> is used up is refused: the
  specification compares the end indices for equality, which is the test below since
  a matcher never moves backwards (lemma \<open>ends_follows\<close>).
\<close>

function rep_ends ::
  "(mstate \<Rightarrow> mstate list) \<Rightarrow> nat \<Rightarrow> nat option \<Rightarrow> mstate \<Rightarrow> mstate list" where
  "rep_ends m mn mx x =
     (if mx = Some 0 then [x]
      else concat (map (\<lambda>y. if mn = 0 \<and> length (snd x) \<le> length (snd y) then []
                               else rep_ends m (mn - 1) (map_option (\<lambda>n. n - 1) mx) y) (m x))
           @ (if mn = 0 then [x] else []))"
  by pat_completeness auto

termination
  by (relation "measures [\<lambda>(m, mn, mx, x). mn, \<lambda>(m, mn, mx, x). length (snd x)]") auto

declare rep_ends.simps [simp del]

fun ends :: "regex \<Rightarrow> mstate \<Rightarrow> mstate list" where
  "ends Eps x = [x]"
| "ends (Cls rs) x =
     (case snd x of [] \<Rightarrow> [] | c # cs \<Rightarrow> if in_cls c rs then [(Some c, cs)] else [])"
| "ends (Seq a b) x = concat (map (ends b) (ends a x))"
| "ends (Alt a b) x = ends a x @ ends b x"
| "ends (Rep mn mx a) x = rep_ends (ends a) mn mx x"
| "ends WordB x = (if at_boundary x then [x] else [])"

text \<open>A literal is the sequence of its code units.\<close>

fun lit :: "string \<Rightarrow> regex" where
  "lit [] = Eps"
| "lit (c # cs) = Seq (Cls [(of_char c, of_char c)]) (lit cs)"

text \<open>
  One attempt of the matcher at index \<open>i\<close> of \<open>text\<close>: the end index of the match, the
  start plus the number of code units consumed.
\<close>

definition matchAt :: "regex \<Rightarrow> jsstring \<Rightarrow> nat \<Rightarrow> nat option" where
  "matchAt r text i =
     (case ends r (if i = 0 then None else Some (text ! (i - 1)), drop i text) of
        [] \<Rightarrow> None
      | y # _ \<Rightarrow> Some (i + (length (drop i text) - length (snd y))))"

text \<open>
  \<^verbatim>\<open>RegExp.prototype.exec\<close> of a global pattern whose \<^verbatim>\<open>lastIndex\<close> is \<open>i\<close>: the first
  index from \<open>i\<close> on at which the pattern matches, with the end of the match (the new
  \<^verbatim>\<open>lastIndex\<close>); \<open>None\<close> is \<^verbatim>\<open>null\<close>.
\<close>

function regexExec :: "regex \<Rightarrow> jsstring \<Rightarrow> nat \<Rightarrow> (nat \<times> nat) option" where
  "regexExec r text i =
     (if length text < i then None
      else case matchAt r text i of
             Some e \<Rightarrow> Some (i, e)
           | None \<Rightarrow> regexExec r text (i + 1))"
  by pat_completeness auto

termination
  by (relation "measure (\<lambda>(r, text, i). length text + 1 - i)") auto

declare regexExec.simps [simp del]

section \<open>The detector\<close>

definition upper :: regex where "upper = Cls [(65, 90)]"

definition lower :: regex where "lower = Cls [(97, 122)]"

definition digit :: regex where "digit = Cls [(48, 57)]"

text \<open>
  \<^verbatim>\<open>[A-Z]{2,}(?:\d*[A-Z]*)*|i[A-Z][a-z]+|e[A-Z][a-z]+|(?:Node|Web|React|Vue|Next)\.?(?:js|JS)?\<close>
\<close>

definition acronymBody :: regex where
  "acronymBody =
     Alt (Seq (Rep 2 None upper) (Rep 0 None (Seq (Rep 0 None digit) (Rep 0 None upper))))
    (Alt (Seq (lit ''i'') (Seq upper (Rep 1 None lower)))
    (Alt (Seq (lit ''e'') (Seq upper (Rep 1 None lower)))
         (Seq (Alt (lit ''Node'') (Alt (lit ''Web'') (Alt (lit ''React'')
                (Alt (lit ''Vue'') (lit ''Next'')))))
              (Seq (Rep 0 (Some 1) (lit ''.''))
                   (Rep 0 (Some 1) (Alt (lit ''js'') (lit ''JS'')))))))"

definition acronymPattern :: regex where
  "acronymPattern = Seq WordB (Seq acronymBody WordB)"

definition nonTechWords :: "jsstring list" where
  "nonTechWords =
     map js [''USA'', ''UK'', ''EU'', ''UN'', ''Mr'', ''Mrs'', ''Ms'', ''Dr'', ''AM'', ''PM'']"

definition shouldSkipAcronym :: "jsstring \<Rightarrow> bool" where
  "shouldSkipAcronym acronym = (acronym \<in> set nonTechWords \<or> length acronym > 12)"

section \<open>Matches consume text\<close>

text \<open>
  Every match of the acronym pattern consumes at least two code units; this is why the
  loop of \<^verbatim>\<open>processTextNode\<close> ends.
\<close>

text \<open>The least number of code units a match of \<open>r\<close> consumes.\<close>

fun minlen :: "regex \<Rightarrow> nat" where
  "minlen Eps = 0"
| "minlen (Cls rs) = 1"
| "minlen (Seq a b) = minlen a + minlen b"
| "minlen (Alt a b) = min (minlen a) (minlen b)"
| "minlen (Rep mn mx a) = (case mx of None \<Rightarrow> mn | Some k \<Rightarrow> min mn k) * minlen a"
| "minlen WordB = 0"

lemma rep_ends_minlen:
  "y \<in> set (rep_ends m mn mx x) \<Longrightarrow>
   (\<And>x y. y \<in> set (m x) \<Longrightarrow> length (snd y) + k \<le> length (snd x)) \<Longrightarrow>
   length (snd y) + (case mx of None \<Rightarrow> mn | Some j \<Rightarrow> min mn j) * k \<le> length (snd x)"
proof (induction m mn mx x arbitrary: y rule: rep_ends.induct)
  case (1 m mn mx x)
  note m = "1.prems"(2)
  show ?case
  proof (cases "mx = Some 0")
    case True
    with "1.prems"(1) show ?thesis by (subst (asm) rep_ends.simps) simp
  next
    case False
    let ?mx' = "map_option (\<lambda>n. n - 1) mx"
    from "1.prems"(1) False consider
        (stop) "mn = 0" "y = x"
      | (round) z where "z \<in> set (m x)" "\<not> (mn = 0 \<and> length (snd x) \<le> length (snd z))"
          "y \<in> set (rep_ends m (mn - 1) ?mx' z)"
      by (subst (asm) rep_ends.simps) (auto split: if_splits)
    then show ?thesis
    proof cases
      case stop
      then show ?thesis by (simp split: option.splits)
    next
      case round
      from "1.IH"[OF False round(1) round(2) round(3) m]
      have ih: "length (snd y) + (case ?mx' of None \<Rightarrow> mn - 1 | Some j \<Rightarrow> min (mn - 1) j) * k
                  \<le> length (snd z)" .
      from m[OF round(1)] have step: "length (snd z) + k \<le> length (snd x)" .
      show ?thesis
      proof (cases mn)
        case 0
        with ih step show ?thesis by (simp split: option.splits)
      next
        case (Suc n)
        have "(case mx of None \<Rightarrow> mn | Some j \<Rightarrow> min mn j)
                \<le> Suc (case ?mx' of None \<Rightarrow> mn - 1 | Some j \<Rightarrow> min (mn - 1) j)"
          using Suc False by (cases mx) auto
        then have "(case mx of None \<Rightarrow> mn | Some j \<Rightarrow> min mn j) * k
                \<le> (case ?mx' of None \<Rightarrow> mn - 1 | Some j \<Rightarrow> min (mn - 1) j) * k + k"
          by (metis mult_le_mono1 mult_Suc add.commute)
        with ih step show ?thesis by linarith
      qed
    qed
  qed
qed

lemma ends_minlen:
  "y \<in> set (ends r x) \<Longrightarrow> length (snd y) + minlen r \<le> length (snd x)"
proof (induction r arbitrary: x y)
  case (Cls rs)
  then show ?case by (cases x) (auto split: list.splits if_splits)
next
  case (Seq a b)
  then obtain z where "z \<in> set (ends a x)" "y \<in> set (ends b z)" by auto
  with Seq.IH[of z x] Seq.IH(2)[of y z] show ?case by simp
next
  case (Alt a b)
  then show ?case by fastforce
next
  case (Rep mn mx a)
  from Rep.prems have "y \<in> set (rep_ends (ends a) mn mx x)" by simp
  from rep_ends_minlen[OF this, of "minlen a"] Rep.IH show ?case by simp
qed (auto split: if_splits)

lemma matchAt_bounds:
  assumes "matchAt r text i = Some e" "i \<le> length text"
  shows "i + minlen r \<le> e \<and> e \<le> length text"
proof -
  let ?x = "(if i = 0 then None else Some (text ! (i - 1)), drop i text)"
  from assms(1) obtain y ys where y: "ends r ?x = y # ys"
    and e: "e = i + (length (drop i text) - length (snd y))"
    by (auto simp: matchAt_def split: list.splits)
  from y have "y \<in> set (ends r ?x)" by simp
  from ends_minlen[OF this] have "length (snd y) + minlen r \<le> length text - i" by simp
  with e assms(2) show ?thesis by simp
qed

lemma regexExec_Some:
  "regexExec r tx i = Some (p, e) \<Longrightarrow>
   i \<le> p \<and> p \<le> length tx \<and> matchAt r tx p = Some e"
proof (induction r tx i rule: regexExec.induct)
  case (1 r tx i)
  show ?case
  proof (cases "matchAt r tx i")
    case None
    with "1.prems" have le: "\<not> length tx < i" and rec: "regexExec r tx (i + 1) = Some (p, e)"
      by (subst (asm) regexExec.simps, simp split: if_splits)+
    from "1.IH"[OF le None rec] show ?thesis by simp
  next
    case (Some e')
    with "1.prems" show ?thesis
      by (subst (asm) regexExec.simps) (simp split: if_splits)
  qed
qed

lemma minlen_acronymPattern: "minlen acronymPattern = 2"
  by (simp add: acronymPattern_def acronymBody_def upper_def lower_def digit_def)

lemma regexExec_acronymPattern:
  assumes "regexExec acronymPattern text i = Some (p, e)"
  shows "i \<le> p \<and> p + 2 \<le> e \<and> e \<le> length text"
proof -
  from regexExec_Some[OF assms] have "i \<le> p" "p \<le> length text"
    "matchAt acronymPattern text p = Some e" by simp_all
  with matchAt_bounds[of acronymPattern "text" p e] show ?thesis
    by (simp add: minlen_acronymPattern)
qed

section \<open>The page\<close>

text \<open>
  A DOM node is a text node or an element with its tag name, its class list, its
  \<^verbatim>\<open>data-acronym\<close> attribute (\<^verbatim>\<open>dataset.acronym\<close>), its other attributes and its
  children.
\<close>

datatype node =
    Text jsstring
  | Element (tagName: jsstring) (classList: "jsstring list") (acronymData: "jsstring option")
      (attributes: "(jsstring \<times> jsstring) list") (childNodes: "node list")

definition markerClass :: jsstring where
  "markerClass = js ''acronym-expander''"

text \<open>
  The span \<^verbatim>\<open>processTextNode\<close> creates for a match: class \<^verbatim>\<open>acronym-expander\<close>, the
  acronym as its text and as \<^verbatim>\<open>dataset.acronym\<close>.
\<close>

definition markSpan :: "jsstring \<Rightarrow> node" where
  "markSpan acronym = Element (js ''SPAN'') [markerClass] (Some acronym) [] [Text acronym]"

section \<open>The segmenter\<close>

text \<open>
  The \<^verbatim>\<open>while ((match = acronymPattern.exec(text)) !== null)\<close> loop of
  \<^verbatim>\<open>processTextNode\<close>.  \<open>reLast\<close> is the pattern's \<^verbatim>\<open>lastIndex\<close>, the other arguments
  are the loop's variables; the result is their values when \<^verbatim>\<open>exec\<close> returns
  \<^verbatim>\<open>null\<close>.  \<open>termsFound\<close> is a \<^verbatim>\<open>Set\<close>, kept in insertion order.  The loop ends
  because every match of the pattern consumes text.
\<close>

function scanLoop ::
  "jsstring \<Rightarrow> nat \<Rightarrow> nat \<Rightarrow> node list \<Rightarrow> jsstring list \<Rightarrow> jsstring \<Rightarrow>
   nat \<times> node list \<times> jsstring list \<times> jsstring" where
  "scanLoop text reLast lastIndex fragments termsFound contextText =
     (case regexExec acronymPattern text reLast of
        None \<Rightarrow> (lastIndex, fragments, termsFound, contextText)
      | Some (index, e) \<Rightarrow>
          (if shouldSkipAcronym (slice text index e)
           then scanLoop text e lastIndex fragments termsFound contextText
           else scanLoop text e (index + length (slice text index e))
                  (fragments
                     @ (if lastIndex < index then [Text (slice text lastIndex index)] else [])
                     @ [markSpan (slice text index e)])
                  (termsFound
                     @ (if slice text index e \<in> set termsFound then [] else [slice text index e]))
                  (slice text (index - 50)
                     (min (length text) (index + length (slice text index e) + 50)))))"
  by pat_completeness auto

termination
proof (relation "measure (\<lambda>(tx, reLast, rest). length tx - reLast)", goal_cases)
  case 1
  show ?case by simp
next
  case (2 tx reLast lastIndex fragments termsFound contextText x2 index e)
  then have "regexExec acronymPattern tx reLast = Some (index, e)" by simp
  from regexExec_acronymPattern[OF this] show ?case by auto
next
  case (3 tx reLast lastIndex fragments termsFound contextText x2 index e)
  then have "regexExec acronymPattern tx reLast = Some (index, e)" by simp
  from regexExec_acronymPattern[OF this] show ?case by auto
qed

declare scanLoop.simps [simp del]

text \<open>
  \<^verbatim>\<open>processTextNode\<close>: the node that stands in the place of the text node afterwards
  (the text node itself unless \<^verbatim>\<open>node.replaceWith(container)\<close> ran), the terms found
  and the context string.
\<close>

definition processTextNode :: "jsstring \<Rightarrow> node \<times> jsstring list \<times> jsstring" where
  "processTextNode text =
     (if length text < 2 then (Text text, [], [])
      else
        (case scanLoop text 0 0 [] [] [] of
           (lastIndex, fragments, termsFound, contextText) \<Rightarrow>
             (let fragments' =
                    fragments @ (if lastIndex < length text
                                 then [Text (slice text lastIndex (length text))] else [])
              in (if 1 < length fragments' then Element (js ''SPAN'') [] None [] fragments'
                  else Text text,
                  termsFound, contextText))))"

text \<open>
  The filter of the \<^verbatim>\<open>TreeWalker\<close> in \<^verbatim>\<open>processPage\<close>, as a function of the text
  node's parent element: a text node is rejected when its parent carries the marker
  class or is a \<^verbatim>\<open>script\<close>, \<^verbatim>\<open>style\<close>, \<^verbatim>\<open>code\<close> or \<^verbatim>\<open>pre\<close> element.
\<close>

definition opaqueTags :: "jsstring list" where
  "opaqueTags = map js [''script'', ''style'', ''code'', ''pre'']"

definition acceptNode :: "node \<Rightarrow> bool" where
  "acceptNode parent =
     (\<not> (markerClass \<in> set (classList parent) \<or>
         toLowerCase (tagName parent) \<in> set opaqueTags))"

text \<open>
  \<^verbatim>\<open>processPage(root)\<close>: the walker visits the text nodes below \<open>root\<close> (never \<open>root\<close>
  itself), the accepted ones are collected and each is handed to
  \<^verbatim>\<open>processTextNode\<close>, which replaces it in place or leaves it.  The batches of 50
  only group these calls; the console report is not modelled.  The mutation observer
  and the settings handler call the same function, on an added element and on the
  body.
\<close>

fun processUnder :: "node \<Rightarrow> node \<Rightarrow> node" where
  "processUnder parent (Text t) =
     (if acceptNode parent then fst (processTextNode t) else Text t)"
| "processUnder parent (Element tg cl ad at ch) =
     Element tg cl ad at (map (processUnder (Element tg cl ad at ch)) ch)"

definition processPage :: "node \<Rightarrow> node" where
  "processPage root =
     (case root of Text t \<Rightarrow> Text t | Element tg cl ad at ch \<Rightarrow> processUnder root root)"

section \<open>The isolated context\<close>

text \<open>
  The two contexts exchange
  \<^verbatim>\<open>{type: "EXPAND_ACRONYM", data: {acronym}}\<close> and
  \<^verbatim>\<open>{type: "EXPANSION_RESULT", data: {acronym, expansion}}\<close>.
\<close>

datatype message =
    ExpandAcronym jsstring
  | ExpansionResult jsstring jsstring
  | OtherMessage

text \<open>
  The language model is outside the repository: a call of \<^verbatim>\<open>languageModel.create\<close>
  and \<^verbatim>\<open>prompt\<close> either returns an answer or throws.
\<close>

datatype aiOutcome = Answer jsstring | Throws

definition sendExpansionResult :: "jsstring \<Rightarrow> jsstring \<Rightarrow> message" where
  "sendExpansionResult acronym expansion = ExpansionResult acronym (trim expansion)"

text \<open>
  The listener of the iframe for a message of its parent window: the reply it posts,
  if any.  An empty acronym is falsy, so \<^verbatim>\<open>data?.acronym\<close> fails and nothing is sent.
\<close>

definition expandAcronym :: "message \<Rightarrow> aiOutcome \<Rightarrow> message option" where
  "expandAcronym msg outcome =
     (case msg of
        ExpandAcronym acronym \<Rightarrow>
          (if acronym = [] then None
           else (case outcome of
                   Answer response \<Rightarrow>
                     (if includesStr (toLowerCase (trim response)) (js ''not a tech term'')
                      then Some (sendExpansionResult acronym [])
                      else Some (sendExpansionResult acronym (trim response)))
                 | Throws \<Rightarrow> Some (sendExpansionResult acronym [])))
      | _ \<Rightarrow> None)"

section \<open>The content script: cache, pending requests and tooltip\<close>

text \<open>
  The tooltip element: its text, whether it is displayed, and the element below whose
  bounding box it was last positioned.
\<close>

record tooltipElement =
  textContent :: jsstring
  displayed :: bool
  anchor :: node

text \<open>
  The state of an \<^verbatim>\<open>AcronymExpander\<close> and its page.
  \<^item> \<open>document\<close>: the tree below \<^verbatim>\<open>document.body\<close> (the tooltip element is kept apart);
  \<^item> \<open>expansions\<close>, \<open>pending\<close>: the two maps of \<^verbatim>\<open>#cache\<close>.  \<open>pending\<close> holds, per
    acronym, the \<^verbatim>\<open>resolve\<close> function of the promise created by the hover that sent the
    request; that hover is the one awaiter of the promise, so the entry is modelled by
    the target element of the suspended hover, which \<^verbatim>\<open>resolve\<close> resumes;
  \<^item> \<open>outbox\<close>: the acronyms of the \<^verbatim>\<open>EXPAND_ACRONYM\<close> messages posted to the iframe;
  \<^item> \<open>iframeWindow\<close>: whether \<^verbatim>\<open>this.#iframe?.contentWindow\<close> is a window;
  \<^item> \<open>tooltip\<close>, \<open>hideTimeout\<close>: \<^verbatim>\<open>#tooltipState\<close>; \<open>timers\<close> are the timeouts that are
    set and not yet fired or cleared;
  \<^item> \<open>errors\<close>: the number of exceptions caught and logged by \<^verbatim>\<open>handleMouseOver\<close>.
\<close>

record page =
  document :: node
  expansions :: "jsstring \<rightharpoonup> jsstring"
  pending :: "jsstring \<rightharpoonup> node"
  outbox :: "jsstring list"
  iframeWindow :: bool
  tooltip :: "tooltipElement option"
  hideTimeout :: "nat option"
  timers :: "nat list"
  nextTimer :: nat
  errors :: nat

definition initialPage :: "node \<Rightarrow> page" where
  "initialPage body =
     \<lparr>document = body, expansions = Map.empty, pending = Map.empty, outbox = [],
      iframeWindow = True, tooltip = None, hideTimeout = None, timers = [],
      nextTimer = 0, errors = 0\<rparr>"

definition showTooltip :: "page \<Rightarrow> jsstring \<Rightarrow> node \<Rightarrow> page" where
  "showTooltip st s target =
     st\<lparr>tooltip := Some \<lparr>textContent = s, displayed = True, anchor = target\<rparr>\<rparr>"

definition clearHideTimeout :: "page \<Rightarrow> page" where
  "clearHideTimeout st =
     (case hideTimeout st of None \<Rightarrow> st | Some k \<Rightarrow> st\<lparr>timers := removeAll k (timers st)\<rparr>)"

text \<open>
  The rest of \<^verbatim>\<open>handleMouseOver\<close> after \<^verbatim>\<open>expansion = await pending\<close>, run when the
  promise is resolved with \<open>expansion\<close>.
\<close>

definition resumeHover :: "page \<Rightarrow> jsstring \<Rightarrow> node \<Rightarrow> page" where
  "resumeHover st expansion target =
     (if expansion \<noteq> [] \<and> trim expansion \<noteq> [] then showTooltip st expansion target else st)"

text \<open>
  \<^verbatim>\<open>handleMouseOver\<close> up to its first suspension.  \<^verbatim>\<open>!expansion\<close> holds for
  \<^verbatim>\<open>undefined\<close> and for the empty string.  In that branch, without a pending entry the
  hover creates the promise: it posts the request (if the iframe has a window), stores
  \<^verbatim>\<open>resolve\<close> in \<open>pending\<close> and is suspended.  With a pending entry, the variable
  \<^verbatim>\<open>pending\<close> is the stored \<^verbatim>\<open>resolve\<close> function, \<^verbatim>\<open>await\<close> of a function yields the
  function itself, and \<^verbatim>\<open>expansion.trim()\<close> throws a \<^verbatim>\<open>TypeError\<close>, which the
  \<^verbatim>\<open>catch\<close> logs.
\<close>

definition handleMouseOver :: "page \<Rightarrow> node \<Rightarrow> page" where
  "handleMouseOver st target =
     (case target of
        Text _ \<Rightarrow> st
      | Element tg cl ad at ch \<Rightarrow>
          (if markerClass \<notin> set cl then st
           else (case ad of
                   None \<Rightarrow> st
                 | Some acronym \<Rightarrow>
                     (if acronym = [] then st
                      else
                        (let st1 = clearHideTimeout st; expansion = expansions st1 acronym
                         in if expansion = None \<or> expansion = Some []
                            then (case pending st1 acronym of
                                    None \<Rightarrow>
                                      st1\<lparr>outbox := (if iframeWindow st1
                                                       then outbox st1 @ [acronym]
                                                       else outbox st1),
                                          pending := (pending st1)(acronym \<mapsto> target)\<rparr>
                                  | Some resolver \<Rightarrow> st1\<lparr>errors := errors st1 + 1\<rparr>)
                            else if trim (the expansion) \<noteq> []
                                 then showTooltip st1 (the expansion) target
                                 else st1)))))"

definition handleMouseOut :: "page \<Rightarrow> page" where
  "handleMouseOut st =
     (case tooltip st of
        None \<Rightarrow> st
      | Some el \<Rightarrow> st\<lparr>hideTimeout := Some (nextTimer st),
                       timers := timers st @ [nextTimer st],
                       nextTimer := nextTimer st + 1\<rparr>)"

text \<open>The callback of a timeout set by \<^verbatim>\<open>handleMouseOut\<close>.\<close>

definition timerFired :: "page \<Rightarrow> nat \<Rightarrow> page" where
  "timerFired st k =
     (if k \<in> set (timers st)
      then st\<lparr>timers := removeAll k (timers st),
              tooltip := map_option (\<lambda>el. el\<lparr>displayed := False\<rparr>) (tooltip st)\<rparr>
      else st)"

text \<open>
  The \<^verbatim>\<open>message\<close> listener of \<^verbatim>\<open>setupMessageHandling\<close>; \<open>fromIframe\<close> is
  \<^verbatim>\<open>event.source === this.#iframe?.contentWindow\<close>.
\<close>

definition handleMessage :: "page \<Rightarrow> bool \<Rightarrow> message \<Rightarrow> page" where
  "handleMessage st fromIframe msg =
     (if \<not> fromIframe then st
      else (case msg of
              ExpansionResult acronym expansion \<Rightarrow>
                (let st1 = st\<lparr>expansions := (expansions st)(acronym \<mapsto> expansion)\<rparr>
                 in case pending st1 acronym of
                      None \<Rightarrow> st1
                    | Some target \<Rightarrow>
                        resumeHover (st1\<lparr>pending := (pending st1)(acronym := None)\<rparr>)
                          expansion target)
            | _ \<Rightarrow> st))"

text \<open>\<^verbatim>\<open>classList.remove("acronym-expander")\<close> on every element of the class.\<close>

fun unmark :: "node \<Rightarrow> node" where
  "unmark (Text t) = Text t"
| "unmark (Element tg cl ad at ch) =
     Element tg (removeAll markerClass cl) ad at (map unmark ch)"

definition handleSettingsChange :: "page \<Rightarrow> bool \<Rightarrow> page" where
  "handleSettingsChange st extensionEnabled =
     (if \<not> extensionEnabled then st\<lparr>document := unmark (document st)\<rparr>
      else st\<lparr>document := processPage (document st)\<rparr>)"

text \<open>The events the content script reacts to, and a run of them.\<close>

datatype event =
    MouseOver node
  | MouseOut
  | TimerFired nat
  | WindowMessage bool message
  | SettingsChanged bool

fun step :: "page \<Rightarrow> event \<Rightarrow> page" where
  "step st (MouseOver target) = handleMouseOver st target"
| "step st MouseOut = handleMouseOut st"
| "step st (TimerFired k) = timerFired st k"
| "step st (WindowMessage fromIframe msg) = handleMessage st fromIframe msg"
| "step st (SettingsChanged enabled) = handleSettingsChange st enabled"

definition run :: "page \<Rightarrow> event list \<Rightarrow> page" where
  "run st evs = foldl step st evs"

section \<open>Notions used in the statements and proofs\<close>

subsection \<open>Runs and documents\<close>

text \<open>Two marked spans for \<open>GPU\<close>, told apart by their \<^verbatim>\<open>id\<close>.\<close>

definition gpuSpanA :: node where
  "gpuSpanA = Element (js ''SPAN'') [markerClass] (Some (js ''GPU'')) [(js ''id'', js ''a'')]
                [Text (js ''GPU'')]"

definition gpuSpanB :: node where
  "gpuSpanB = Element (js ''SPAN'') [markerClass] (Some (js ''GPU'')) [(js ''id'', js ''b'')]
                [Text (js ''GPU'')]"

text \<open>
  Two trees are the same up to the marker class: the same shape, the same text nodes,
  and elements with the same tag, data attribute and other attributes whose class
  lists differ at most in the marker class.
\<close>

fun sameExceptMarker :: "node \<Rightarrow> node \<Rightarrow> bool" where
  "sameExceptMarker (Text s) (Text t) = (s = t)"
| "sameExceptMarker (Element tg cl ad at ch) (Element tg' cl' ad' at' ch') =
     (tg = tg' \<and> removeAll markerClass cl = removeAll markerClass cl' \<and> ad = ad' \<and> at = at'
      \<and> list_all2 sameExceptMarker ch ch')"
| "sameExceptMarker _ _ = False"

text \<open>Some element of the tree carries the marker class.\<close>

fun marked :: "node \<Rightarrow> bool" where
  "marked (Text t) = False"
| "marked (Element tg cl ad at ch) = (markerClass \<in> set cl \<or> list_ex marked ch)"



subsection \<open>Matches\<close>

text \<open>
  A matcher only consumes text: a state it reaches holds a suffix of the text it
  started with, and the code unit before it is the last one consumed.
\<close>

definition follows :: "mstate \<Rightarrow> mstate \<Rightarrow> bool" where
  "follows x y =
     (\<exists>c. snd x = c @ snd y \<and> fst y = (if c = [] then fst x else Some (last c)))"

text \<open>A pattern without \<^verbatim>\<open>\b\<close>.\<close>

fun noAssert :: "regex \<Rightarrow> bool" where
  "noAssert Eps = True"
| "noAssert (Cls rs) = True"
| "noAssert (Seq a b) = (noAssert a \<and> noAssert b)"
| "noAssert (Alt a b) = (noAssert a \<and> noAssert b)"
| "noAssert (Rep mn mx a) = noAssert a"
| "noAssert WordB = False"

text \<open>
  The matches of a pattern without assertions, by the text they leave, and the code
  unit before an index of the text.
\<close>

definition tails :: "regex \<Rightarrow> jsstring \<Rightarrow> jsstring list" where
  "tails r u = map snd (ends r (None, u))"

definition prevOf :: "jsstring \<Rightarrow> nat \<Rightarrow> nat option" where
  "prevOf s i = (if i = 0 then None else Some (s ! (i - 1)))"

text \<open>
  \<^verbatim>\<open>\b\<close> after a match that started with the text \<open>u\<close> and leaves \<open>s\<close>: the last
  code unit consumed is a word character and the next one is not, or the other way
  round.
\<close>

definition bnd :: "jsstring \<Rightarrow> jsstring \<Rightarrow> bool" where
  "bnd u s =
     (is_word (u ! (length u - length s - 1)) \<noteq> (case s of [] \<Rightarrow> False | c # _ \<Rightarrow> is_word c))"

text \<open>
  The remainders of the matches of the body that end at a word boundary, in the
  matcher's order; the match of the pattern is the first of them.
\<close>

definition bodyMatch :: "jsstring \<Rightarrow> jsstring list" where
  "bodyMatch u = filter (bnd u) (tails acronymBody u)"

text \<open>
  A pattern whose character classes hold word characters only: whatever it consumes
  ends in a word character.
\<close>

fun wordOnly :: "regex \<Rightarrow> bool" where
  "wordOnly Eps = True"
| "wordOnly (Cls rs) = (\<forall>c. in_cls c rs \<longrightarrow> is_word c)"
| "wordOnly (Seq a b) = (wordOnly a \<and> wordOnly b)"
| "wordOnly (Alt a b) = (wordOnly a \<and> wordOnly b)"
| "wordOnly (Rep mn mx a) = wordOnly a"
| "wordOnly WordB = True"

definition lastWord :: "mstate \<Rightarrow> mstate \<Rightarrow> bool" where
  "lastWord x y = (y = x \<or> (\<exists>d. fst y = Some d \<and> is_word d))"

text \<open>The most a pattern with bounded quantifiers consumes.\<close>

fun maxlen :: "regex \<Rightarrow> nat" where
  "maxlen Eps = 0"
| "maxlen (Cls rs) = 1"
| "maxlen (Seq a b) = maxlen a + maxlen b"
| "maxlen (Alt a b) = max (maxlen a) (maxlen b)"
| "maxlen (Rep mn mx a) = the mx * maxlen a"
| "maxlen WordB = 0"

fun boundedRep :: "regex \<Rightarrow> bool" where
  "boundedRep Eps = True"
| "boundedRep (Cls rs) = True"
| "boundedRep (Seq a b) = (boundedRep a \<and> boundedRep b)"
| "boundedRep (Alt a b) = (boundedRep a \<and> boundedRep b)"
| "boundedRep (Rep mn mx a) = (mx \<noteq> None \<and> boundedRep a)"
| "boundedRep WordB = True"

subsection \<open>The loop of the segmenter\<close>

text \<open>
  The next match from index \<open>q\<close> on that \<^verbatim>\<open>shouldSkipAcronym\<close> does not reject: the
  match for which the loop of \<^verbatim>\<open>processTextNode\<close> next adds a span.
\<close>

function nextAccepted :: "jsstring \<Rightarrow> nat \<Rightarrow> (nat \<times> nat) option" where
  "nextAccepted s q =
     (case regexExec acronymPattern s q of
        None \<Rightarrow> None
      | Some (i, e) \<Rightarrow>
          if shouldSkipAcronym (slice s i e) then nextAccepted s e else Some (i, e))"
  by pat_completeness auto

termination
proof (relation "measure (\<lambda>(s, q). length s - q)", goal_cases)
  case 1
  show ?case by simp
next
  case (2 s q x2 i e)
  then have "regexExec acronymPattern s q = Some (i, e)" by simp
  from regexExec_acronymPattern[OF this] show ?case by auto
qed

declare nextAccepted.simps [simp del]

text \<open>
  A fragment that a second pass leaves alone: a marked span, or a text node in which
  \<^verbatim>\<open>processTextNode\<close> marks nothing.
\<close>

definition settled :: "node \<Rightarrow> bool" where
  "settled n =
     ((\<exists>acronym. n = markSpan acronym) \<or> (\<exists>g. n = Text g \<and> fst (processTextNode g) = Text g))"

section \<open>Facts about the handlers\<close>

lemma handleMouseOver_expansions [simp]:
  "expansions (handleMouseOver st target) = expansions st"
  by (simp add: handleMouseOver_def clearHideTimeout_def showTooltip_def Let_def
      split: node.splits option.splits)

lemma handleMouseOver_document [simp]:
  "document (handleMouseOver st target) = document st"
  by (simp add: handleMouseOver_def clearHideTimeout_def showTooltip_def Let_def
      split: node.splits option.splits)

lemma handleMouseOver_pending_keep:
  "pending st a = Some r \<Longrightarrow> pending (handleMouseOver st target) a = Some r"
  by (auto simp add: handleMouseOver_def clearHideTimeout_def showTooltip_def Let_def
      split: node.splits option.splits)

text \<open>A hover over a term with a pending entry posts nothing.\<close>

lemma handleMouseOver_pending_no_request:
  "pending st a = Some r \<Longrightarrow> acronymData target = Some a \<Longrightarrow>
   outbox (handleMouseOver st target) = outbox st"
  by (auto simp add: handleMouseOver_def clearHideTimeout_def showTooltip_def Let_def
      split: node.splits option.splits)

text \<open>A hover over a term with a non-empty cached expansion posts nothing.\<close>

lemma handleMouseOver_cached_no_request:
  "expansions st a = Some v \<Longrightarrow> v \<noteq> [] \<Longrightarrow> acronymData target = Some a \<Longrightarrow>
   outbox (handleMouseOver st target) = outbox st \<and>
   pending (handleMouseOver st target) = pending st"
  by (auto simp add: handleMouseOver_def clearHideTimeout_def showTooltip_def Let_def
      split: node.splits option.splits)

lemma handleMouseOut_frame [simp]:
  "expansions (handleMouseOut st) = expansions st"
  "pending (handleMouseOut st) = pending st"
  "outbox (handleMouseOut st) = outbox st"
  "tooltip (handleMouseOut st) = tooltip st"
  "document (handleMouseOut st) = document st"
  by (simp_all add: handleMouseOut_def split: option.splits)

lemma timerFired_frame [simp]:
  "expansions (timerFired st k) = expansions st"
  "pending (timerFired st k) = pending st"
  "outbox (timerFired st k) = outbox st"
  "document (timerFired st k) = document st"
  by (simp_all add: timerFired_def)

lemma handleSettingsChange_frame [simp]:
  "expansions (handleSettingsChange st b) = expansions st"
  "pending (handleSettingsChange st b) = pending st"
  "outbox (handleSettingsChange st b) = outbox st"
  "tooltip (handleSettingsChange st b) = tooltip st"
  by (simp_all add: handleSettingsChange_def)

lemma handleMessage_other:
  "(\<forall>v. msg \<noteq> ExpansionResult a v) \<or> \<not> fromIframe \<Longrightarrow>
   pending (handleMessage st fromIframe msg) a = pending st a \<and>
   expansions (handleMessage st fromIframe msg) a = expansions st a"
  by (auto simp add: handleMessage_def resumeHover_def showTooltip_def Let_def
      split: message.splits option.splits)

lemma run_Nil [simp]: "run st [] = st"
  by (simp add: run_def)

lemma run_Cons [simp]: "run st (ev # evs) = run (step st ev) evs"
  by (simp add: run_def)

lemma run_append [simp]: "run st (evs @ evs') = run (run st evs) evs'"
  by (simp add: run_def)

text \<open>
  Without a reply for the acronym, a pending entry stays: nothing but the arrival of
  an \<^verbatim>\<open>EXPANSION_RESULT\<close> from the iframe resumes the suspended hover.
\<close>

lemma step_pending_stays:
  assumes "pending st a = Some r" "\<And>v. ev \<noteq> WindowMessage True (ExpansionResult a v)"
  shows "pending (step st ev) a = Some r \<and> expansions (step st ev) a = expansions st a"
proof (cases ev)
  case (MouseOver target)
  with assms(1) show ?thesis by (simp add: handleMouseOver_pending_keep)
next
  case (WindowMessage fromIframe msg)
  with assms(2) have "(\<forall>v. msg \<noteq> ExpansionResult a v) \<or> \<not> fromIframe" by auto
  from handleMessage_other[OF this] assms(1) WindowMessage show ?thesis by simp
qed (use assms(1) in simp_all)

lemma run_pending_stays:
  "pending st a = Some r \<Longrightarrow>
   (\<And>v. WindowMessage True (ExpansionResult a v) \<notin> set evs) \<Longrightarrow>
   pending (run st evs) a = Some r \<and> expansions (run st evs) a = expansions st a"
proof (induction evs arbitrary: st)
  case Nil
  then show ?case by simp
next
  case (Cons ev evs)
  from Cons.prems(2) have ev: "\<And>v. ev \<noteq> WindowMessage True (ExpansionResult a v)" by auto
  from step_pending_stays[OF Cons.prems(1) ev]
  have 1: "pending (step st ev) a = Some r" and 2: "expansions (step st ev) a = expansions st a"
    by simp_all
  from Cons.prems(2) have "\<And>v. WindowMessage True (ExpansionResult a v) \<notin> set evs" by auto
  from Cons.IH[OF 1 this] 2 show ?case by simp
qed

lemmas run_defs =
  initialPage_def handleMouseOver_def handleMouseOut_def timerFired_def handleMessage_def
  resumeHover_def clearHideTimeout_def showTooltip_def gpuSpanA_def gpuSpanB_def
  markerClass_def js_def trim_def isSpace_def in_cls_def

section \<open>Two hovers over the same term\<close>

text \<open>
  Claim C1, at the run: hover over the first span, hover over the second span while the
  request is pending, reply \<open>Graphics Processing Unit\<close>.  One request is posted and
  the pending entry is the first hover's.  The second hover does not wait for the reply:
  it ends in the \<^verbatim>\<open>catch\<close> (one logged error) before the reply arrives, and the reply
  resumes the first hover alone, which shows the tooltip at the first span.
\<close>

theorem second_hover_not_joined:
  "outbox (run (initialPage (Text [])) [MouseOver gpuSpanA, MouseOver gpuSpanB]) = [js ''GPU'']
   \<and> pending (run (initialPage (Text [])) [MouseOver gpuSpanA]) (js ''GPU'') = Some gpuSpanA
   \<and> errors (run (initialPage (Text [])) [MouseOver gpuSpanA]) = 0
   \<and> pending (run (initialPage (Text [])) [MouseOver gpuSpanA, MouseOver gpuSpanB]) (js ''GPU'')
       = Some gpuSpanA
   \<and> errors (run (initialPage (Text [])) [MouseOver gpuSpanA, MouseOver gpuSpanB]) = 1
   \<and> tooltip (run (initialPage (Text [])) [MouseOver gpuSpanA, MouseOver gpuSpanB]) = None
   \<and> tooltip (run (initialPage (Text []))
         [MouseOver gpuSpanA, MouseOver gpuSpanB,
          WindowMessage True (ExpansionResult (js ''GPU'') (js ''Graphics Processing Unit''))])
       = Some \<lparr>textContent = js ''Graphics Processing Unit'', displayed = True,
               anchor = gpuSpanA\<rparr>
   \<and> pending (run (initialPage (Text []))
         [MouseOver gpuSpanA, MouseOver gpuSpanB,
          WindowMessage True (ExpansionResult (js ''GPU'') (js ''Graphics Processing Unit''))])
         (js ''GPU'') = None
   \<and> gpuSpanA \<noteq> gpuSpanB"
  by (simp add: run_defs)

section \<open>A cached empty expansion\<close>

text \<open>
  Claim C2, at the run: hover over a \<open>GPU\<close> span, reply with the empty expansion,
  hover again.  After the reply the cache holds the empty string for \<open>GPU\<close> and no
  entry is pending; the second hover posts a second request and is suspended again.
\<close>

theorem empty_expansion_requested_again:
  "outbox (run (initialPage (Text []))
       [MouseOver gpuSpanA, WindowMessage True (ExpansionResult (js ''GPU'') [])]) = [js ''GPU'']
   \<and> expansions (run (initialPage (Text []))
       [MouseOver gpuSpanA, WindowMessage True (ExpansionResult (js ''GPU'') [])]) (js ''GPU'')
       = Some []
   \<and> pending (run (initialPage (Text []))
       [MouseOver gpuSpanA, WindowMessage True (ExpansionResult (js ''GPU'') [])]) (js ''GPU'')
       = None
   \<and> outbox (run (initialPage (Text []))
       [MouseOver gpuSpanA, WindowMessage True (ExpansionResult (js ''GPU'') []),
        MouseOver gpuSpanA]) = [js ''GPU'', js ''GPU'']
   \<and> pending (run (initialPage (Text []))
       [MouseOver gpuSpanA, WindowMessage True (ExpansionResult (js ''GPU'') []),
        MouseOver gpuSpanA]) (js ''GPU'') = Some gpuSpanA"
  by (simp add: run_defs)

section \<open>Requests that fail\<close>

text \<open>
  Claim C4 fails as stated: with no window behind the iframe nothing is posted, the
  hover is suspended on a promise that nothing resolves, and the term has no entry in
  the cache, whatever time passes.
\<close>

theorem lost_request_blocks_hover:
  "outbox (run ((initialPage (Text []))\<lparr>iframeWindow := False\<rparr>)
       [MouseOver gpuSpanA, MouseOut, TimerFired 0, MouseOver gpuSpanB]) = []
   \<and> pending (run ((initialPage (Text []))\<lparr>iframeWindow := False\<rparr>)
       [MouseOver gpuSpanA, MouseOut, TimerFired 0, MouseOver gpuSpanB]) (js ''GPU'')
       = Some gpuSpanA
   \<and> expansions (run ((initialPage (Text []))\<lparr>iframeWindow := False\<rparr>)
       [MouseOver gpuSpanA, MouseOut, TimerFired 0, MouseOver gpuSpanB]) (js ''GPU'') = None"
  by (simp add: run_defs)

text \<open>
  Claim C4, amended.  When the isolated context throws while it handles the request
  for a term, it replies with the empty expansion; when that reply arrives, the term's
  entry becomes the empty string, the pending entry is removed and its hover is resumed
  without a tooltip.  As long as no reply for the term arrives, a pending entry and its
  suspended hover stay as they are and the cache entry of the term does not change.
\<close>

theorem failure_resolution:
  assumes "acronym \<noteq> []"
  shows "expandAcronym (ExpandAcronym acronym) Throws = Some (ExpansionResult acronym [])
    \<and> expansions (handleMessage st True (ExpansionResult acronym [])) acronym = Some []
    \<and> pending (handleMessage st True (ExpansionResult acronym [])) acronym = None
    \<and> tooltip (handleMessage st True (ExpansionResult acronym [])) = tooltip st
    \<and> ((\<forall>v. WindowMessage True (ExpansionResult acronym v) \<notin> set evs) \<and>
        pending st acronym = Some target \<longrightarrow>
        pending (run st evs) acronym = Some target \<and>
        expansions (run st evs) acronym = expansions st acronym)"
proof -
  have a: "expandAcronym (ExpandAcronym acronym) Throws = Some (ExpansionResult acronym [])"
    using assms by (simp add: expandAcronym_def sendExpansionResult_def trim_def)
  have b: "expansions (handleMessage st True (ExpansionResult acronym [])) acronym = Some []"
    by (simp add: handleMessage_def resumeHover_def Let_def split: option.splits)
  have c: "pending (handleMessage st True (ExpansionResult acronym [])) acronym = None"
    by (simp add: handleMessage_def resumeHover_def Let_def split: option.splits)
  have d: "tooltip (handleMessage st True (ExpansionResult acronym [])) = tooltip st"
    by (simp add: handleMessage_def resumeHover_def Let_def split: option.splits)
  have e: "(\<forall>v. WindowMessage True (ExpansionResult acronym v) \<notin> set evs) \<and>
        pending st acronym = Some target \<longrightarrow>
        pending (run st evs) acronym = Some target \<and>
        expansions (run st evs) acronym = expansions st acronym"
    using run_pending_stays[of st acronym target evs] by blast
  from a b c d e show ?thesis by (intro conjI)
qed

theorem failure_resolution_witness:
  "js ''GPU'' \<noteq> []
   \<and> expandAcronym (ExpandAcronym (js ''GPU'')) Throws = Some (ExpansionResult (js ''GPU'') [])
   \<and> pending (handleMouseOver (initialPage (Text [])) gpuSpanA) (js ''GPU'') = Some gpuSpanA
   \<and> expansions (handleMessage (handleMouseOver (initialPage (Text [])) gpuSpanA) True
        (ExpansionResult (js ''GPU'') [])) (js ''GPU'') = Some []
   \<and> pending (handleMessage (handleMouseOver (initialPage (Text [])) gpuSpanA) True
        (ExpansionResult (js ''GPU'') [])) (js ''GPU'') = None
   \<and> tooltip (handleMessage (handleMouseOver (initialPage (Text [])) gpuSpanA) True
        (ExpansionResult (js ''GPU'') [])) = None
   \<and> pending (run (handleMouseOver (initialPage (Text [])) gpuSpanA) [MouseOut, TimerFired 0])
        (js ''GPU'') = Some gpuSpanA"
proof -
  have ne: "js ''GPU'' \<noteq> []" by (simp add: js_def)
  have p: "pending (handleMouseOver (initialPage (Text [])) gpuSpanA) (js ''GPU'') = Some gpuSpanA"
    by (simp add: run_defs)
  have t: "tooltip (handleMouseOver (initialPage (Text [])) gpuSpanA) = None"
    by (simp add: run_defs)
  have n: "\<forall>v. WindowMessage True (ExpansionResult (js ''GPU'') v) \<notin> set [MouseOut, TimerFired 0]"
    by simp
  from failure_resolution[OF ne, of "handleMouseOver (initialPage (Text [])) gpuSpanA"
      "[MouseOut, TimerFired 0]" gpuSpanA] ne p t n
  show ?thesis by simp
qed

section \<open>Replies nobody waits for\<close>

text \<open>
  Claim C10 fails as stated: a reply for a term without a pending entry changes the
  cache.
\<close>

theorem unsolicited_result_is_cached:
  "pending (initialPage (Text [])) (js ''GPU'') = None
   \<and> expansions (initialPage (Text [])) (js ''GPU'') = None
   \<and> expansions (handleMessage (initialPage (Text [])) True
        (ExpansionResult (js ''GPU'') (js ''Graphics Processing Unit''))) (js ''GPU'')
       = Some (js ''Graphics Processing Unit'')"
  by (simp add: run_defs)

text \<open>
  Claim C10, amended.  An \<^verbatim>\<open>EXPANSION_RESULT\<close> from the iframe for a term without a
  pending entry is accepted without an exception; it stores the expansion it carries in
  the cache under its term and changes nothing else: the pending map, the tooltip, the
  posted requests and the document stay as they are.  From any other source it changes
  nothing.
\<close>

theorem unsolicited_result:
  assumes "pending st acronym = None"
  shows "handleMessage st fromIframe (ExpansionResult acronym expansion) =
         (if fromIframe then st\<lparr>expansions := (expansions st)(acronym \<mapsto> expansion)\<rparr> else st)"
  using assms by (simp add: handleMessage_def Let_def)

theorem unsolicited_result_witness:
  "pending (initialPage (Text [])) (js ''GPU'') = None
   \<and> handleMessage (initialPage (Text [])) True (ExpansionResult (js ''GPU'') (js ''X'')) =
       (initialPage (Text []))\<lparr>expansions := (expansions (initialPage (Text [])))(js ''GPU'' \<mapsto> js ''X'')\<rparr>"
proof -
  have p: "pending (initialPage (Text [])) (js ''GPU'') = None"
    by (simp add: initialPage_def)
  from unsolicited_result[OF p, of True "js ''X''"] p show ?thesis by simp
qed

section \<open>Answers that are no expansion\<close>











section \<open>Switching the extension off\<close>

lemma sameExceptMarker_unmark: "sameExceptMarker d (unmark d)"
proof (induction d)
  case (Text t)
  show ?case by simp
next
  case (Element tg cl ad at ch)
  have "list_all2 sameExceptMarker ch (map unmark ch)"
    using Element.IH by (induction ch) simp_all
  then show ?case by simp
qed

lemma not_marked_unmark: "\<not> marked (unmark d)"
proof (induction d)
  case (Text t)
  show ?case by simp
next
  case (Element tg cl ad at ch)
  have "\<not> list_ex marked (map unmark ch)"
    using Element.IH by (induction ch) simp_all
  then show ?case by simp
qed

text \<open>
  Claim C9.  A settings change with \<^verbatim>\<open>extensionEnabled = false\<close> changes the document
  and nothing else of the state (cache, pending requests, tooltip, timers, requests
  posted); the new document is the old one up to the marker class, which no element
  carries any more.
\<close>

theorem disable_only_unmarks:
  "handleSettingsChange st False = st\<lparr>document := document (handleSettingsChange st False)\<rparr>
   \<and> expansions (handleSettingsChange st False) = expansions st
   \<and> pending (handleSettingsChange st False) = pending st
   \<and> sameExceptMarker (document st) (document (handleSettingsChange st False))
   \<and> \<not> marked (document (handleSettingsChange st False))"
  by (simp add: handleSettingsChange_def sameExceptMarker_unmark not_marked_unmark)

theorem disable_only_unmarks_witness:
  "document (handleSettingsChange
      ((initialPage (Element (js ''P'') [] None [] [Text (js ''the ''), markSpan (js ''GPU'')]))
         \<lparr>expansions := [js ''GPU'' \<mapsto> js ''Graphics Processing Unit'']\<rparr>) False)
     = Element (js ''P'') [] None []
         [Text (js ''the ''), Element (js ''SPAN'') [] (Some (js ''GPU'')) [] [Text (js ''GPU'')]]
   \<and> expansions (handleSettingsChange
      ((initialPage (Element (js ''P'') [] None [] [Text (js ''the ''), markSpan (js ''GPU'')]))
         \<lparr>expansions := [js ''GPU'' \<mapsto> js ''Graphics Processing Unit'']\<rparr>) False) (js ''GPU'')
     = Some (js ''Graphics Processing Unit'')
   \<and> sameExceptMarker
       (Element (js ''P'') [] None [] [Text (js ''the ''), markSpan (js ''GPU'')])
       (Element (js ''P'') [] None []
         [Text (js ''the ''), Element (js ''SPAN'') [] (Some (js ''GPU'')) [] [Text (js ''GPU'')]])"
proof -
  let ?st = "(initialPage (Element (js ''P'') [] None [] [Text (js ''the ''), markSpan (js ''GPU'')]))
         \<lparr>expansions := [js ''GPU'' \<mapsto> js ''Graphics Processing Unit'']\<rparr>"
  have d: "document (handleSettingsChange ?st False)
     = Element (js ''P'') [] None []
         [Text (js ''the ''), Element (js ''SPAN'') [] (Some (js ''GPU'')) [] [Text (js ''GPU'')]]"
    by (simp add: handleSettingsChange_def initialPage_def markSpan_def)
  have o: "document ?st = Element (js ''P'') [] None [] [Text (js ''the ''), markSpan (js ''GPU'')]"
    by (simp add: initialPage_def)
  have e: "expansions ?st (js ''GPU'') = Some (js ''Graphics Processing Unit'')"
    by (simp add: initialPage_def)
  from disable_only_unmarks[of ?st] d o e show ?thesis by simp
qed

section \<open>Segmenter: one text node\<close>

text \<open>
  Claim C6.  For the text \<open>Check the GPU and HDR settings\<close>, \<^verbatim>\<open>processTextNode\<close>
  replaces the text node by a container span with five children in this order: the
  text \<open>Check the \<close>, a marked span for \<open>GPU\<close>, the text \<open> and \<close>, a marked span for
  \<open>HDR\<close> and the text \<open> settings\<close>; \<^verbatim>\<open>processPage\<close> does so for such a text node in
  a paragraph.
\<close>

theorem segmentation_example:
  "processTextNode (js ''Check the GPU and HDR settings'') =
     (Element (js ''SPAN'') [] None []
        [Text (js ''Check the ''), markSpan (js ''GPU''), Text (js '' and ''),
         markSpan (js ''HDR''), Text (js '' settings'')],
      [js ''GPU'', js ''HDR''], js ''Check the GPU and HDR settings'')
   \<and> processPage (Element (js ''P'') [] None [] [Text (js ''Check the GPU and HDR settings'')]) =
       Element (js ''P'') [] None []
         [Element (js ''SPAN'') [] None []
            [Text (js ''Check the ''), markSpan (js ''GPU''), Text (js '' and ''),
             markSpan (js ''HDR''), Text (js '' settings'')]]
   \<and> markSpan (js ''GPU'') =
       Element (js ''SPAN'') [js ''acronym-expander''] (Some (js ''GPU'')) [] [Text (js ''GPU'')]"
proof -
  have a: "processTextNode (js ''Check the GPU and HDR settings'') =
     (Element (js ''SPAN'') [] None []
        [Text (js ''Check the ''), markSpan (js ''GPU''), Text (js '' and ''),
         markSpan (js ''HDR''), Text (js '' settings'')],
      [js ''GPU'', js ''HDR''], js ''Check the GPU and HDR settings'')"
    by code_simp
  have acc: "acceptNode (Element (js ''P'') [] None [] [Text (js ''Check the GPU and HDR settings'')])"
    by code_simp
  have b: "processPage (Element (js ''P'') [] None [] [Text (js ''Check the GPU and HDR settings'')]) =
       Element (js ''P'') [] None []
         [Element (js ''SPAN'') [] None []
            [Text (js ''Check the ''), markSpan (js ''GPU''), Text (js '' and ''),
             markSpan (js ''HDR''), Text (js '' settings'')]]"
    by (simp add: processPage_def acc a)
  have c: "markSpan (js ''GPU'') =
       Element (js ''SPAN'') [js ''acronym-expander''] (Some (js ''GPU'')) [] [Text (js ''GPU'')]"
    by (simp add: markSpan_def markerClass_def)
  from a b c show ?thesis by (intro conjI)
qed

text \<open>
  Claim C3, at the text \<open>GPU\<close>.  The pattern matches the whole text, the match is not
  skipped and \<open>GPU\<close> is reported among the terms found, but the only fragment is the
  span, \<^verbatim>\<open>fragments.length > 1\<close> fails and the text node stays as it is: no container,
  no marked span.
\<close>

theorem lone_acronym_not_marked:
  "regexExec acronymPattern (js ''GPU'') 0 = Some (0, 3)
   \<and> \<not> shouldSkipAcronym (slice (js ''GPU'') 0 3)
   \<and> scanLoop (js ''GPU'') 0 0 [] [] [] = (3, [markSpan (js ''GPU'')], [js ''GPU''], js ''GPU'')
   \<and> processTextNode (js ''GPU'') = (Text (js ''GPU''), [js ''GPU''], js ''GPU'')
   \<and> processPage (Element (js ''TD'') [] None [] [Text (js ''GPU'')]) =
       Element (js ''TD'') [] None [] [Text (js ''GPU'')]"
proof -
  have a: "regexExec acronymPattern (js ''GPU'') 0 = Some (0, 3)"
    by code_simp
  have b: "\<not> shouldSkipAcronym (slice (js ''GPU'') 0 3)"
    by code_simp
  have c: "scanLoop (js ''GPU'') 0 0 [] [] [] = (3, [markSpan (js ''GPU'')], [js ''GPU''], js ''GPU'')"
    by code_simp
  have d: "processTextNode (js ''GPU'') = (Text (js ''GPU''), [js ''GPU''], js ''GPU'')"
    by code_simp
  have e: "processPage (Element (js ''TD'') [] None [] [Text (js ''GPU'')]) =
       Element (js ''TD'') [] None [] [Text (js ''GPU'')]"
    by (simp add: processPage_def d)
  from a b c d e show ?thesis by (intro conjI)
qed

section \<open>Where a match can end\<close>

lemma follows_refl: "follows x x"
  by (simp add: follows_def)

lemma follows_trans:
  assumes "follows x y" "follows y z"
  shows "follows x z"
proof -
  from assms(1) obtain c where c: "snd x = c @ snd y"
    "fst y = (if c = [] then fst x else Some (last c))" by (auto simp: follows_def)
  from assms(2) obtain d where d: "snd y = d @ snd z"
    "fst z = (if d = [] then fst y else Some (last d))" by (auto simp: follows_def)
  from c(1) d(1) have 1: "snd x = (c @ d) @ snd z" by simp
  from c(2) d(2) have 2: "fst z = (if c @ d = [] then fst x else Some (last (c @ d)))"
    by (cases "d = []") simp_all
  from 1 2 show ?thesis unfolding follows_def by blast
qed

lemma follows_length: "follows x y \<Longrightarrow> length (snd y) \<le> length (snd x)"
  by (auto simp: follows_def)

lemma rep_ends_follows:
  "y \<in> set (rep_ends m mn mx x) \<Longrightarrow> (\<And>x y. y \<in> set (m x) \<Longrightarrow> follows x y) \<Longrightarrow> follows x y"
proof (induction m mn mx x arbitrary: y rule: rep_ends.induct)
  case (1 m mn mx x)
  note m = "1.prems"(2)
  show ?case
  proof (cases "mx = Some 0")
    case True
    with "1.prems"(1) show ?thesis
      by (subst (asm) rep_ends.simps) (simp add: follows_refl)
  next
    case False
    from "1.prems"(1) False consider
        (stop) "y = x"
      | (round) z where "z \<in> set (m x)" "\<not> (mn = 0 \<and> length (snd x) \<le> length (snd z))"
          "y \<in> set (rep_ends m (mn - 1) (map_option (\<lambda>n. n - 1) mx) z)"
      by (subst (asm) rep_ends.simps) (auto split: if_splits)
    then show ?thesis
    proof cases
      case stop
      then show ?thesis by (simp add: follows_refl)
    next
      case round
      from m[OF round(1)] "1.IH"[OF False round(1) round(2) round(3) m]
      show ?thesis by (rule follows_trans)
    qed
  qed
qed

lemma ends_follows: "y \<in> set (ends r x) \<Longrightarrow> follows x y"
proof (induction r arbitrary: x y)
  case Eps
  then show ?case by (simp add: follows_refl)
next
  case (Cls rs)
  show ?case
  proof (cases "snd x")
    case Nil
    with Cls show ?thesis by simp
  next
    case (Cons c cs)
    with Cls have "y = (Some c, cs)" by (simp split: if_splits)
    with Cons have "snd x = [c] @ snd y \<and> fst y = (if [c] = [] then fst x else Some (last [c]))"
      by simp
    then show ?thesis unfolding follows_def by blast
  qed
next
  case (Seq a b)
  then obtain z where z: "z \<in> set (ends a x)" "y \<in> set (ends b z)" by auto
  from Seq.IH(1)[OF z(1)] Seq.IH(2)[OF z(2)] show ?case by (rule follows_trans)
next
  case (Alt a b)
  from Alt.prems have "y \<in> set (ends a x) \<or> y \<in> set (ends b x)" by simp
  with Alt.IH show ?case by blast
next
  case (Rep mn mx a)
  from Rep.prems have "y \<in> set (rep_ends (ends a) mn mx x)" by simp
  from this Rep.IH show ?case by (rule rep_ends_follows)
next
  case WordB
  then show ?case by (simp add: follows_refl split: if_splits)
qed

text \<open>
  Cutting the text behind a position: the matches of a pattern without assertions in
  the text \<open>u\<close> are its matches in \<open>u @ w\<close> that end inside \<open>u\<close>, in the same order.
  Matches are compared by the text they leave.
\<close>

lemma concat_map_trunc:
  assumes "map (\<lambda>s. s @ w) (map snd ys) = filter (\<lambda>s. length w \<le> length s) (map snd zs)"
    and "\<And>y z. y \<in> set ys \<Longrightarrow> snd z = snd y @ w \<Longrightarrow>
           map (\<lambda>s. s @ w) (map snd (f y)) = filter (\<lambda>s. length w \<le> length s) (map snd (g z))"
    and "\<And>z. z \<in> set zs \<Longrightarrow> \<not> length w \<le> length (snd z) \<Longrightarrow>
           filter (\<lambda>s. length w \<le> length s) (map snd (g z)) = []"
  shows "map (\<lambda>s. s @ w) (map snd (concat (map f ys))) =
         filter (\<lambda>s. length w \<le> length s) (map snd (concat (map g zs)))"
  using assms
proof (induction zs arbitrary: ys)
  case Nil
  then show ?case by simp
next
  case (Cons z zs)
  show ?case
  proof (cases "length w \<le> length (snd z)")
    case True
    with Cons.prems(1) obtain y ys' where ys: "ys = y # ys'" and y: "snd y @ w = snd z"
      and rest: "map (\<lambda>s. s @ w) (map snd ys') = filter (\<lambda>s. length w \<le> length s) (map snd zs)"
      by (cases ys) auto
    have hd: "map (\<lambda>s. s @ w) (map snd (f y)) = filter (\<lambda>s. length w \<le> length s) (map snd (g z))"
      using Cons.prems(2)[of y z] ys y by simp
    have tl: "map (\<lambda>s. s @ w) (map snd (concat (map f ys'))) =
         filter (\<lambda>s. length w \<le> length s) (map snd (concat (map g zs)))"
      by (rule Cons.IH[OF rest]) (use Cons.prems(2,3) ys in auto)
    from hd tl ys show ?thesis by simp
  next
    case False
    with Cons.prems(1)
    have rest: "map (\<lambda>s. s @ w) (map snd ys) = filter (\<lambda>s. length w \<le> length s) (map snd zs)"
      by simp
    have hd: "filter (\<lambda>s. length w \<le> length s) (map snd (g z)) = []"
      using Cons.prems(3)[of z] False by simp
    have tl: "map (\<lambda>s. s @ w) (map snd (concat (map f ys))) =
         filter (\<lambda>s. length w \<le> length s) (map snd (concat (map g zs)))"
      by (rule Cons.IH[OF rest]) (use Cons.prems(2,3) in auto)
    from hd tl show ?thesis by simp
  qed
qed

lemma short_filter_empty:
  assumes "\<And>y. y \<in> set ys \<Longrightarrow> length (snd y) < length w"
  shows "filter (\<lambda>s. length w \<le> length s) (map snd ys) = []"
proof -
  have "\<not> length w \<le> length s" if "s \<in> set (map snd ys)" for s
  proof -
    from that obtain y where "y \<in> set ys" "s = snd y" by auto
    with assms[of y] show ?thesis by simp
  qed
  then show ?thesis by (simp add: filter_empty_conv)
qed

lemma rep_ends_trunc:
  "(\<And>pv pv' u. map (\<lambda>s. s @ w) (map snd (m (pv, u))) =
       filter (\<lambda>s. length w \<le> length s) (map snd (m (pv', u @ w)))) \<Longrightarrow>
   (\<And>x y. y \<in> set (m x) \<Longrightarrow> length (snd y) \<le> length (snd x)) \<Longrightarrow>
   map (\<lambda>s. s @ w) (map snd (rep_ends m mn mx x)) =
     filter (\<lambda>s. length w \<le> length s) (map snd (rep_ends m mn mx (pv', snd x @ w)))"
proof (induction m mn mx x arbitrary: pv' rule: rep_ends.induct)
  case (1 m mn mx x)
  note hm = "1.prems"(1) and mono = "1.prems"(2)
  let ?x' = "(pv', snd x @ w)"
  let ?mx' = "map_option (\<lambda>n. n - 1) mx"
  show ?case
  proof (cases "mx = Some 0")
    case True
    have L0: "rep_ends m mn mx x = [x]"
      by (subst rep_ends.simps) (simp add: True)
    have R0: "rep_ends m mn mx ?x' = [?x']"
      by (subst rep_ends.simps) (simp add: True)
    show ?thesis by (simp add: L0 R0)
  next
    case False
    define f where "f = (\<lambda>y. if mn = 0 \<and> length (snd x) \<le> length (snd y) then []
                            else rep_ends m (mn - 1) ?mx' y)"
    define g where "g = (\<lambda>z. if mn = 0 \<and> length (snd ?x') \<le> length (snd z) then []
                            else rep_ends m (mn - 1) ?mx' z)"
    have L: "rep_ends m mn mx x = concat (map f (m x)) @ (if mn = 0 then [x] else [])"
      by (subst rep_ends.simps) (simp add: False f_def)
    have R: "rep_ends m mn mx ?x' = concat (map g (m ?x')) @ (if mn = 0 then [?x'] else [])"
      by (subst rep_ends.simps) (simp add: False g_def)
    have lists: "map (\<lambda>s. s @ w) (map snd (m x)) =
                 filter (\<lambda>s. length w \<le> length s) (map snd (m ?x'))"
      using hm[of "fst x" "snd x" pv'] by simp
    have c1: "map (\<lambda>s. s @ w) (map snd (f y)) =
              filter (\<lambda>s. length w \<le> length s) (map snd (g z))"
      if y: "y \<in> set (m x)" and z: "snd z = snd y @ w" for y z
    proof (cases "mn = 0 \<and> length (snd x) \<le> length (snd y)")
      case True
      with z show ?thesis by (simp add: f_def g_def)
    next
      case no: False
      have "z = (fst z, snd y @ w)" using z by (cases z) simp
      with "1.IH"[OF False y no hm mono, of "fst z"]
      have "map (\<lambda>s. s @ w) (map snd (rep_ends m (mn - 1) ?mx' y)) =
            filter (\<lambda>s. length w \<le> length s) (map snd (rep_ends m (mn - 1) ?mx' z))"
        by simp
      with no z show ?thesis by (auto simp add: f_def g_def)
    qed
    have c2: "filter (\<lambda>s. length w \<le> length s) (map snd (g z)) = []"
      if "z \<in> set (m ?x')" "\<not> length w \<le> length (snd z)" for z
    proof (rule short_filter_empty)
      fix y assume "y \<in> set (g z)"
      then have "y \<in> set (rep_ends m (mn - 1) ?mx' z)"
        by (simp add: g_def split: if_splits)
      from rep_ends_minlen[OF this, of 0] mono have "length (snd y) \<le> length (snd z)" by simp
      with that(2) show "length (snd y) < length w" by simp
    qed
    from concat_map_trunc[of w "m x" "m ?x'" f g, OF lists c1 c2]
    have "map (\<lambda>s. s @ w) (map snd (concat (map f (m x)))) =
          filter (\<lambda>s. length w \<le> length s) (map snd (concat (map g (m ?x'))))" .
    then show ?thesis by (simp add: L R)
  qed
qed

lemma ends_trunc:
  "noAssert r \<Longrightarrow>
   map (\<lambda>s. s @ w) (map snd (ends r (pv, u))) =
     filter (\<lambda>s. length w \<le> length s) (map snd (ends r (pv', u @ w)))"
proof (induction r arbitrary: pv pv' u)
  case Eps
  show ?case by simp
next
  case (Cls rs)
  show ?case by (cases u; cases w) simp_all
next
  case (Seq a b)
  from Seq.prems have na: "noAssert a" and nb: "noAssert b" by simp_all
  have lists: "map (\<lambda>s. s @ w) (map snd (ends a (pv, u))) =
               filter (\<lambda>s. length w \<le> length s) (map snd (ends a (pv', u @ w)))"
    by (rule Seq.IH(1)[OF na])
  have c1: "map (\<lambda>s. s @ w) (map snd (ends b y)) =
            filter (\<lambda>s. length w \<le> length s) (map snd (ends b z))"
    if "y \<in> set (ends a (pv, u))" "snd z = snd y @ w" for y z
    using Seq.IH(2)[OF nb, of "fst y" "snd y" "fst z"] that(2) by (cases y; cases z) simp
  have c2: "filter (\<lambda>s. length w \<le> length s) (map snd (ends b z)) = []"
    if "z \<in> set (ends a (pv', u @ w))" "\<not> length w \<le> length (snd z)" for z
  proof (rule short_filter_empty)
    fix y assume "y \<in> set (ends b z)"
    from ends_minlen[OF this] that(2) show "length (snd y) < length w" by simp
  qed
  from concat_map_trunc[of w "ends a (pv, u)" "ends a (pv', u @ w)" "ends b" "ends b",
      OF lists c1 c2]
  show ?case by simp
next
  case (Alt a b)
  from Alt.prems have na: "noAssert a" and nb: "noAssert b" by simp_all
  from Alt.IH(1)[OF na, of pv u pv'] Alt.IH(2)[OF nb, of pv u pv'] show ?case by simp
next
  case (Rep mn mx a)
  from Rep.prems have na: "noAssert a" by simp
  have mono: "length (snd y) \<le> length (snd x)" if "y \<in> set (ends a x)" for x y
    using ends_minlen[OF that] by simp
  from rep_ends_trunc[of w "ends a" mn mx "(pv, u)" pv', OF Rep.IH[OF na] mono]
  show ?case by simp
next
  case WordB
  then show ?case by simp
qed

section \<open>The matches of the acronym pattern\<close>

lemma tails_pv: "noAssert r \<Longrightarrow> map snd (ends r (pv, u)) = tails r u"
  using ends_trunc[of r "[]" pv u None] by (simp add: tails_def)

lemma tails_trunc:
  "noAssert r \<Longrightarrow>
   map (\<lambda>s. s @ w) (tails r u) = filter (\<lambda>s. length w \<le> length s) (tails r (u @ w))"
  using ends_trunc[of r w None u None] by (simp add: tails_def)

lemma tails_shorter:
  assumes "s \<in> set (tails r u)"
  shows "length s + minlen r \<le> length u"
proof -
  from assms obtain y where "y \<in> set (ends r (None, u))" "s = snd y"
    by (auto simp: tails_def)
  with ends_minlen[of y r "(None, u)"] show ?thesis by simp
qed

lemma concat_map_WordB: "concat (map (ends WordB) ys) = filter at_boundary ys"
  by (induction ys) simp_all

lemma ends_bounded:
  "ends (Seq WordB (Seq body WordB)) x =
     (if at_boundary x then filter at_boundary (ends body x) else [])"
  by (simp add: concat_map_WordB)

lemma state_bnd:
  assumes "y \<in> set (ends body (pv, u))" "1 \<le> minlen body"
  shows "at_boundary y = bnd u (snd y)"
proof -
  from ends_follows[OF assms(1)] obtain c where c: "u = c @ snd y"
    "fst y = (if c = [] then pv else Some (last c))" by (auto simp: follows_def)
  from ends_minlen[OF assms(1)] assms(2) have "length (snd y) < length u" by simp
  with c(1) have ne: "c \<noteq> []" by auto
  have "length u - length (snd y) - 1 = length c - 1" using c(1)
    by (metis add_diff_cancel_right' length_append)
  moreover have "u ! (length c - 1) = last c" using ne c(1)
    by (metis diff_less last_conv_nth length_greater_0_conv nth_append zero_less_one)
  ultimately have "u ! (length u - length (snd y) - 1) = last c" by simp
  moreover have "y = (Some (last c), snd y)" using c(2) ne by (cases y) simp
  ultimately show ?thesis
    by (metis at_boundary.simps bnd_def option.simps(5))
qed

lemma noAssert_acronymBody: "noAssert acronymBody"
  by (simp add: acronymBody_def upper_def lower_def digit_def)

lemma minlen_acronymBody: "minlen acronymBody = 2"
  by (simp add: acronymBody_def upper_def lower_def digit_def)

lemma bounded_tails:
  "map snd (filter at_boundary (ends acronymBody (pv, u))) = bodyMatch u"
proof -
  have "filter at_boundary (ends acronymBody (pv, u)) =
        filter (\<lambda>y. bnd u (snd y)) (ends acronymBody (pv, u))"
    by (rule filter_cong[OF refl]) (simp add: state_bnd minlen_acronymBody)
  then have "map snd (filter at_boundary (ends acronymBody (pv, u))) =
        filter (bnd u) (map snd (ends acronymBody (pv, u)))"
    by (simp add: filter_map comp_def)
  then show ?thesis by (simp add: bodyMatch_def tails_pv[OF noAssert_acronymBody])
qed

lemma matchAt_acronymPattern:
  "matchAt acronymPattern s p =
     (if at_boundary (prevOf s p, drop p s)
      then (case bodyMatch (drop p s) of
              [] \<Rightarrow> None
            | r # _ \<Rightarrow> Some (p + (length (drop p s) - length r)))
      else None)"
proof -
  let ?x = "(prevOf s p, drop p s)"
  have x: "(if p = 0 then None else Some (s ! (p - 1)), drop p s) = ?x"
    by (simp add: prevOf_def)
  have e: "ends acronymPattern ?x =
           (if at_boundary ?x then filter at_boundary (ends acronymBody ?x) else [])"
    unfolding acronymPattern_def by (rule ends_bounded)
  show ?thesis
  proof (cases "at_boundary ?x")
    case False
    with e x show ?thesis by (simp add: matchAt_def)
  next
    case True
    with e have e': "ends acronymPattern ?x = filter at_boundary (ends acronymBody ?x)" by simp
    show ?thesis
    proof (cases "filter at_boundary (ends acronymBody ?x)")
      case Nil
      with bounded_tails[of "prevOf s p" "drop p s"] have "bodyMatch (drop p s) = []" by simp
      with Nil e' x True show ?thesis by (simp add: matchAt_def)
    next
      case (Cons y ys)
      with bounded_tails[of "prevOf s p" "drop p s"]
      have "bodyMatch (drop p s) = snd y # map snd ys" by simp
      with Cons e' x True show ?thesis by (simp add: matchAt_def)
    qed
  qed
qed

lemma bodyMatch_shorter:
  assumes "r \<in> set (bodyMatch u)"
  shows "length r + 2 \<le> length u"
  using assms tails_shorter[of r acronymBody u]
  by (simp add: bodyMatch_def minlen_acronymBody)

text \<open>Every match of the body starts with a word character.\<close>

lemma bodyMatch_first:
  assumes "u = [] \<or> \<not> is_word (hd u)"
  shows "bodyMatch u = []"
proof (cases u)
  case Nil
  have "tails acronymBody [] = []"
  proof (rule ccontr)
    assume "tails acronymBody [] \<noteq> []"
    then obtain r where "r \<in> set (tails acronymBody [])" by (cases "tails acronymBody []") auto
    from tails_shorter[OF this] show False by (simp add: minlen_acronymBody)
  qed
  with Nil show ?thesis by (simp add: bodyMatch_def)
next
  case (Cons c cs)
  with assms have nw: "\<not> is_word c" by simp
  then have c: "\<not> in_cls c [(65, 90)]" "\<not> in_cls c [(105, 105)]" "\<not> in_cls c [(101, 101)]"
    "\<not> in_cls c [(78, 78)]" "\<not> in_cls c [(87, 87)]" "\<not> in_cls c [(82, 82)]"
    "\<not> in_cls c [(86, 86)]"
    by (auto simp: is_word_def in_cls_def)
  have up: "ends upper (None, c # cs) = []"
    using c by (simp add: upper_def)
  have rep: "rep_ends (ends upper) 2 None (None, c # cs) = []"
    by (subst rep_ends.simps) (simp add: up)
  have "ends acronymBody (None, c # cs) = []"
    using c by (simp add: acronymBody_def rep)
  with Cons show ?thesis by (simp add: bodyMatch_def tails_def)
qed

text \<open>
  Cutting the text at an index that lies behind a non-word character, or at its end,
  keeps the matches that end before the cut, with their order, and leaves no others.
\<close>

lemma bodyMatch_trunc:
  assumes ne: "u \<noteq> []" and cut: "w = [] \<or> \<not> is_word (last u)"
  shows "map (\<lambda>s. s @ w) (bodyMatch u) =
         filter (\<lambda>s. length w < length s \<or> w = []) (bodyMatch (u @ w))"
proof -
  let ?A = "tails acronymBody u" and ?L = "tails acronymBody (u @ w)"
  let ?R = "\<lambda>s. bnd (u @ w) s \<and> (length w < length s \<or> w = [])"
  have tr: "map (\<lambda>s. s @ w) ?A = filter (\<lambda>s. length w \<le> length s) ?L"
    by (rule tails_trunc[OF noAssert_acronymBody])
  have c: "bnd u s = ?R (s @ w)" if "s \<in> set ?A" for s
  proof -
    from tails_shorter[OF that] have len: "length s + 2 \<le> length u"
      by (simp add: minlen_acronymBody)
    then have i1: "length u - length s - 1 < length u"
      and i2: "length (u @ w) - length (s @ w) - 1 = length u - length s - 1"
      by simp_all
    have idx: "(u @ w) ! (length (u @ w) - length (s @ w) - 1) = u ! (length u - length s - 1)"
      unfolding i2 using i1 by (simp add: nth_append)
    show ?thesis
    proof (cases s)
      case (Cons d ds)
      with idx show ?thesis by (simp add: bnd_def)
    next
      case Nil
      have "u ! (length u - 1) = last u" using ne by (simp add: last_conv_nth)
      with Nil idx cut show ?thesis
        by (cases w) (auto simp add: bnd_def)
    qed
  qed
  have "map (\<lambda>s. s @ w) (bodyMatch u) = map (\<lambda>s. s @ w) (filter (\<lambda>s. ?R (s @ w)) ?A)"
    unfolding bodyMatch_def using c by (simp cong: filter_cong)
  also have "\<dots> = filter ?R (map (\<lambda>s. s @ w) ?A)"
    by (simp add: filter_map comp_def)
  also have "\<dots> = filter ?R (filter (\<lambda>s. length w \<le> length s) ?L)"
    by (simp only: tr)
  also have "\<dots> = filter ?R ?L"
    by (auto simp add: filter_filter intro!: filter_cong)
  also have "\<dots> = filter (\<lambda>s. length w < length s \<or> w = []) (bodyMatch (u @ w))"
    by (auto simp add: bodyMatch_def filter_filter intro!: filter_cong)
  finally show ?thesis .
qed

lemma at_boundary_Cons:
  "at_boundary (pv, c # cs) = ((case pv of None \<Rightarrow> False | Some d \<Rightarrow> is_word d) \<noteq> is_word c)"
  by simp

text \<open>
  The matcher in a piece of the text.  Let the piece run from \<open>a\<close> to \<open>b\<close>, where \<open>b\<close>
  is the end of the text or lies behind a non-word character and \<open>a\<close> is the start of
  the text or the end of a match.  At an index of the piece the pattern matches in the
  piece as in the text, if the match in the text ends before \<open>b\<close>; it does not match
  in the piece where it does not match in the text.
\<close>

lemma matchAt_slice:
  assumes ap: "a \<le> p" and pb: "p < b" and bs: "b \<le> length s"
    and right: "b = length s \<or> \<not> is_word (s ! (b - 1))"
    and left: "a = 0 \<or> a < p \<or> at_boundary (Some (s ! (a - 1)), drop a s)"
  shows "matchAt acronymPattern s p = None \<Longrightarrow>
           matchAt acronymPattern (slice s a b) (p - a) = None"
    and "matchAt acronymPattern s p = Some e \<Longrightarrow> e < b \<or> b = length s \<Longrightarrow>
           matchAt acronymPattern (slice s a b) (p - a) = Some (e - a)"
proof -
  let ?g = "slice s a b"
  define u where "u = take (b - p) (drop p s)"
  define w where "w = drop b s"
  have dg: "drop (p - a) ?g = u"
    using ap by (simp add: slice_def u_def drop_take)
  have ds: "drop p s = u @ w"
  proof -
    have 1: "drop (b - p) (drop p s) = drop b s" using pb by simp
    show ?thesis unfolding u_def w_def 1[symmetric]
      by (rule append_take_drop_id[symmetric])
  qed
  have lu: "length u = b - p" using bs by (simp add: u_def)
  with pb have ne: "u \<noteq> []" by auto
  have hd: "hd u = s ! p" using pb bs by (simp add: u_def hd_conv_nth hd_drop_conv_nth)
  have "last u = u ! (length u - 1)" using ne by (simp add: last_conv_nth)
  also have "\<dots> = s ! (b - 1)" using pb bs lu by (simp add: u_def)
  finally have last: "last u = s ! (b - 1)" .
  have cut: "w = [] \<or> \<not> is_word (last u)"
    using right last by (auto simp: w_def)
  obtain c cs where uc: "u = c # cs" using ne by (cases u) auto
  with hd have c: "c = s ! p" by simp
  have pg: "prevOf ?g (p - a) = (if p = a then None else Some (s ! (p - 1)))"
    using ap pb bs by (auto simp add: prevOf_def slice_def)
  show "matchAt acronymPattern ?g (p - a) = None" if none: "matchAt acronymPattern s p = None"
  proof (cases "is_word c")
    case False
    with uc have "bodyMatch u = []" by (simp add: bodyMatch_first)
    then show ?thesis by (simp add: matchAt_acronymPattern dg)
  next
    case True
    have same: "at_boundary (prevOf ?g (p - a), u) = at_boundary (prevOf s p, u @ w)"
      using left True c ap pg uc ds
      by (auto simp add: prevOf_def at_boundary_Cons split: if_splits)
    show ?thesis
    proof (cases "at_boundary (prevOf s p, u @ w)")
      case False
      with same show ?thesis by (simp add: matchAt_acronymPattern dg)
    next
      case bd: True
      with none ds have "bodyMatch (u @ w) = []"
        by (simp add: matchAt_acronymPattern split: list.splits)
      with bodyMatch_trunc[OF ne cut] have "bodyMatch u = []" by simp
      then show ?thesis by (simp add: matchAt_acronymPattern dg)
    qed
  qed
  show "matchAt acronymPattern ?g (p - a) = Some (e - a)"
    if some: "matchAt acronymPattern s p = Some e" and eb: "e < b \<or> b = length s"
  proof -
    from some ds have bd: "at_boundary (prevOf s p, u @ w)"
      by (simp add: matchAt_acronymPattern split: if_splits)
    with some ds obtain r' rs' where r': "bodyMatch (u @ w) = r' # rs'"
      and e: "e = p + (length (u @ w) - length r')"
      by (auto simp add: matchAt_acronymPattern split: list.splits)
    from r' have "r' \<in> set (bodyMatch (u @ w))" by simp
    from bodyMatch_shorter[OF this] have lr: "length r' + 2 \<le> length u + length w" by simp
    have q: "length w < length r' \<or> w = []"
      using eb e lr lu pb bs by (auto simp: w_def)
    from bodyMatch_trunc[OF ne cut] r' q
    have "map (\<lambda>s. s @ w) (bodyMatch u) = r' # filter (\<lambda>s. length w < length s \<or> w = []) rs'"
      by simp
    then obtain r rs where r: "bodyMatch u = r # rs" and rw: "r @ w = r'"
      by (cases "bodyMatch u") auto
    have cw: "is_word c"
    proof (rule ccontr)
      assume "\<not> is_word c"
      with uc have "bodyMatch u = []" by (simp add: bodyMatch_first)
      with r show False by simp
    qed
    have same: "at_boundary (prevOf ?g (p - a), u) = at_boundary (prevOf s p, u @ w)"
      using left cw c ap pg uc ds
      by (auto simp add: prevOf_def at_boundary_Cons split: if_splits)
    from r have "r \<in> set (bodyMatch u)" by simp
    from bodyMatch_shorter[OF this] have "length r + 2 \<le> length u" .
    with e rw lu ap pb have "e - a = p - a + (length u - length r)" by auto
    with same bd r show ?thesis by (simp add: matchAt_acronymPattern dg)
  qed
qed

section \<open>The last code unit of a match\<close>

lemma lastWord_trans: "lastWord x y \<Longrightarrow> lastWord y z \<Longrightarrow> lastWord x z"
  by (auto simp: lastWord_def)

lemma rep_ends_lastWord:
  "y \<in> set (rep_ends m mn mx x) \<Longrightarrow> (\<And>x y. y \<in> set (m x) \<Longrightarrow> lastWord x y) \<Longrightarrow>
   lastWord x y"
proof (induction m mn mx x arbitrary: y rule: rep_ends.induct)
  case (1 m mn mx x)
  note m = "1.prems"(2)
  show ?case
  proof (cases "mx = Some 0")
    case True
    with "1.prems"(1) show ?thesis
      by (subst (asm) rep_ends.simps) (simp add: lastWord_def)
  next
    case False
    from "1.prems"(1) False consider
        (stop) "y = x"
      | (round) z where "z \<in> set (m x)" "\<not> (mn = 0 \<and> length (snd x) \<le> length (snd z))"
          "y \<in> set (rep_ends m (mn - 1) (map_option (\<lambda>n. n - 1) mx) z)"
      by (subst (asm) rep_ends.simps) (auto split: if_splits)
    then show ?thesis
    proof cases
      case stop
      then show ?thesis by (simp add: lastWord_def)
    next
      case round
      from m[OF round(1)] "1.IH"[OF False round(1) round(2) round(3) m]
      show ?thesis by (rule lastWord_trans)
    qed
  qed
qed

lemma ends_lastWord: "wordOnly r \<Longrightarrow> y \<in> set (ends r x) \<Longrightarrow> lastWord x y"
proof (induction r arbitrary: x y)
  case Eps
  then show ?case by (simp add: lastWord_def)
next
  case (Cls rs)
  show ?case
  proof (cases "snd x")
    case Nil
    with Cls.prems(2) show ?thesis by simp
  next
    case (Cons c cs)
    with Cls.prems(2) have "y = (Some c, cs)" "in_cls c rs" by (simp_all split: if_splits)
    with Cls.prems(1) show ?thesis by (simp add: lastWord_def)
  qed
next
  case (Seq a b)
  from Seq.prems(2) obtain z where z: "z \<in> set (ends a x)" "y \<in> set (ends b z)" by auto
  from Seq.prems(1) have "wordOnly a" "wordOnly b" by simp_all
  with Seq.IH(1)[OF _ z(1)] Seq.IH(2)[OF _ z(2)] show ?case by (blast intro: lastWord_trans)
next
  case (Alt a b)
  from Alt.prems(2) have "y \<in> set (ends a x) \<or> y \<in> set (ends b x)" by simp
  moreover from Alt.prems(1) have "wordOnly a" "wordOnly b" by simp_all
  ultimately show ?case using Alt.IH by blast
next
  case (Rep mn mx a)
  from Rep.prems(2) have "y \<in> set (rep_ends (ends a) mn mx x)" by simp
  moreover from Rep.prems(1) have "wordOnly a" by simp
  ultimately show ?case using Rep.IH by (blast intro: rep_ends_lastWord)
next
  case WordB
  then show ?case by (simp add: lastWord_def split: if_splits)
qed

lemma rep_ends_maxlen:
  "y \<in> set (rep_ends m mn (Some j) x) \<Longrightarrow>
   (\<And>x y. y \<in> set (m x) \<Longrightarrow> length (snd x) \<le> length (snd y) + k) \<Longrightarrow>
   length (snd x) \<le> length (snd y) + j * k"
proof (induction m mn "Some j :: nat option" x arbitrary: y j rule: rep_ends.induct)
  case (1 m mn x)
  note m = "1.prems"(2)
  show ?case
  proof (cases "j = 0")
    case True
    with "1.prems"(1) show ?thesis
      by (subst (asm) rep_ends.simps) simp
  next
    case False
    from "1.prems"(1) False consider
        (stop) "y = x"
      | (round) z where "z \<in> set (m x)" "\<not> (mn = 0 \<and> length (snd x) \<le> length (snd z))"
          "y \<in> set (rep_ends m (mn - 1) (Some (j - 1)) z)"
      by (subst (asm) rep_ends.simps) (auto split: if_splits)
    then show ?thesis
    proof cases
      case stop
      then show ?thesis by simp
    next
      case round
      from False have j: "Some j \<noteq> Some 0" "map_option (\<lambda>n. n - 1) (Some j) = Some (j - 1)"
        by simp_all
      from "1.hyps"[OF j(1) round(1) round(2) j(2) round(3) m]
      have "length (snd z) \<le> length (snd y) + (j - 1) * k" .
      moreover from m[OF round(1)] have "length (snd x) \<le> length (snd z) + k" .
      moreover from False have "(j - 1) * k + k = j * k"
        by (cases j) simp_all
      ultimately show ?thesis by linarith
    qed
  qed
qed

lemma ends_maxlen:
  "boundedRep r \<Longrightarrow> y \<in> set (ends r x) \<Longrightarrow> length (snd x) \<le> length (snd y) + maxlen r"
proof (induction r arbitrary: x y)
  case (Cls rs)
  then show ?case by (cases "snd x") (auto split: if_splits)
next
  case (Seq a b)
  from Seq.prems(2) obtain z where z: "z \<in> set (ends a x)" "y \<in> set (ends b z)" by auto
  from Seq.prems(1) have "boundedRep a" "boundedRep b" by simp_all
  with Seq.IH(1)[OF _ z(1)] Seq.IH(2)[OF _ z(2)] show ?case by simp
next
  case (Alt a b)
  from Alt.prems(1) have ba: "boundedRep a" and bb: "boundedRep b" by simp_all
  from Alt.prems(2) consider "y \<in> set (ends a x)" | "y \<in> set (ends b x)" by auto
  then show ?case
  proof cases
    case 1
    from Alt.IH(1)[OF ba this] show ?thesis by simp
  next
    case 2
    from Alt.IH(2)[OF bb this] show ?thesis by simp
  qed
next
  case (Rep mn mx a)
  from Rep.prems(1) obtain j where j: "mx = Some j" and ba: "boundedRep a" by auto
  from Rep.prems(2) j have "y \<in> set (rep_ends (ends a) mn (Some j) x)" by simp
  from rep_ends_maxlen[OF this, of "maxlen a"] Rep.IH[OF ba] j show ?case by simp
qed (auto split: if_splits)

text \<open>
  A match of the acronym pattern of more than eight code units is a match of one of
  the first three alternatives and ends in a word character.
\<close>

lemma long_match_ends_word:
  assumes y: "y \<in> set (ends acronymBody x)" and long: "length (snd y) + 8 < length (snd x)"
  shows "\<exists>d. fst y = Some d \<and> is_word d"
proof -
  define A1 where "A1 = Seq (Rep 2 None upper) (Rep 0 None (Seq (Rep 0 None digit) (Rep 0 None upper)))"
  define A2 where "A2 = Seq (lit ''i'') (Seq upper (Rep 1 None lower))"
  define A3 where "A3 = Seq (lit ''e'') (Seq upper (Rep 1 None lower))"
  define A4 where "A4 = Seq (Alt (lit ''Node'') (Alt (lit ''Web'') (Alt (lit ''React'')
                (Alt (lit ''Vue'') (lit ''Next'')))))
              (Seq (Rep 0 (Some 1) (lit ''.''))
                   (Rep 0 (Some 1) (Alt (lit ''js'') (lit ''JS''))))"
  have body: "acronymBody = Alt A1 (Alt A2 (Alt A3 A4))"
    by (simp add: acronymBody_def A1_def A2_def A3_def A4_def)
  have w: "wordOnly A1" "wordOnly A2" "wordOnly A3"
    by (auto simp add: A1_def A2_def A3_def upper_def lower_def digit_def is_word_def in_cls_def)
  have b4: "boundedRep A4" "maxlen A4 = 8"
    by (simp_all add: A4_def)
  from y have "y \<in> set (ends (Alt A1 (Alt A2 (Alt A3 A4))) x)" unfolding body .
  then consider "y \<in> set (ends A1 x)" | "y \<in> set (ends A2 x)" | "y \<in> set (ends A3 x)"
    | "y \<in> set (ends A4 x)" by auto
  then show ?thesis
  proof cases
    case 4
    from ends_maxlen[OF b4(1) this] b4(2) long show ?thesis by simp
  next
    case 1
    from ends_lastWord[OF w(1) this] long show ?thesis by (auto simp: lastWord_def)
  next
    case 2
    from ends_lastWord[OF w(2) this] long show ?thesis by (auto simp: lastWord_def)
  next
    case 3
    from ends_lastWord[OF w(3) this] long show ?thesis by (auto simp: lastWord_def)
  qed
qed

section \<open>Facts about a match of the acronym pattern\<close>

lemma bodyMatch_state:
  assumes "r \<in> set (bodyMatch u)"
  obtains y c where "y \<in> set (ends acronymBody (None, u))" "snd y = r" "u = c @ r" "c \<noteq> []"
    "fst y = Some (last c)" "bnd u r"
proof -
  from assms have b: "bnd u r" and "r \<in> set (tails acronymBody u)"
    by (simp_all add: bodyMatch_def)
  then obtain y where y: "y \<in> set (ends acronymBody (None, u))" "snd y = r"
    by (auto simp: tails_def)
  from ends_follows[OF y(1)] y(2) obtain c where c: "u = c @ r"
    "fst y = (if c = [] then None else Some (last c))" by (auto simp: follows_def)
  from bodyMatch_shorter[OF assms] c(1) have "c \<noteq> []" by auto
  with that[OF y c(1)] c(2) b show ?thesis by simp
qed

lemma nonTechWords_last:
  assumes "t \<in> set nonTechWords"
  shows "t \<noteq> [] \<and> is_word (last t)"
  using assms by (auto simp: nonTechWords_def js_def is_word_def in_cls_def)

lemma matchAt_facts:
  assumes m: "matchAt acronymPattern s p = Some e"
  shows "p + 2 \<le> e" and "e \<le> length s" and "is_word (s ! p)"
    and "p = 0 \<or> \<not> is_word (s ! (p - 1))"
    and "at_boundary (Some (s ! (e - 1)), drop e s)"
    and "shouldSkipAcronym (slice s p e) \<Longrightarrow> is_word (s ! (e - 1))"
proof -
  let ?u = "drop p s"
  from m have bd: "at_boundary (prevOf s p, ?u)"
    by (simp add: matchAt_acronymPattern split: if_splits)
  with m obtain r rs where r: "bodyMatch ?u = r # rs" and e: "e = p + (length ?u - length r)"
    by (auto simp add: matchAt_acronymPattern split: list.splits)
  from r have rin: "r \<in> set (bodyMatch ?u)" by simp
  from bodyMatch_shorter[OF rin] have lr: "length r + 2 \<le> length ?u" .
  then have ps: "p + 2 \<le> length s" by simp
  from lr e show 1: "p + 2 \<le> e" by simp
  from lr e ps show 2: "e \<le> length s" by simp
  have hd: "hd ?u = s ! p" using ps by (simp add: hd_drop_conv_nth)
  have une: "?u \<noteq> []" using ps by simp
  show 3: "is_word (s ! p)"
  proof (rule ccontr)
    assume "\<not> is_word (s ! p)"
    with hd have "bodyMatch ?u = []" by (simp add: bodyMatch_first)
    with r show False by simp
  qed
  obtain c cs where uc: "?u = c # cs" using une by (cases ?u) auto
  with hd have c: "c = s ! p" by simp
  from bd uc c 3 show "p = 0 \<or> \<not> is_word (s ! (p - 1))"
    by (auto simp add: prevOf_def split: if_splits)
  from rin obtain y d where y: "y \<in> set (ends acronymBody (None, ?u))" "snd y = r"
    and d: "?u = d @ r" "d \<noteq> []" "fst y = Some (last d)" and b: "bnd ?u r"
    by (rule bodyMatch_state)
  have lu: "length ?u = length d + length r"
    using arg_cong[OF d(1), of length] by simp
  have ld: "length d = e - p" using lu e by simp
  have "drop (length d) ?u = r"
    using arg_cong[OF d(1), of "drop (length d)"] by simp
  with ld 1 have rd: "r = drop e s" by simp
  have "(d @ r) ! (length d - 1) = last d"
    using d(2) by (simp add: nth_append last_conv_nth)
  then have ul: "?u ! (length d - 1) = last d" using d(1) by simp
  have "?u ! (length d - 1) = s ! (e - 1)" using ld 1 2 by simp
  with ul have last: "last d = s ! (e - 1)" by simp
  have "length ?u - length r - 1 = length d - 1" using lu by simp
  with ul last have "?u ! (length ?u - length r - 1) = s ! (e - 1)" by simp
  with b rd show "at_boundary (Some (s ! (e - 1)), drop e s)"
    by (simp add: bnd_def)
  show "is_word (s ! (e - 1))" if skip: "shouldSkipAcronym (slice s p e)"
  proof -
    have sl: "slice s p e = d"
      using d(1) ld by (simp add: slice_def)
    from skip consider "d \<in> set nonTechWords" | "12 < length d"
      by (auto simp: shouldSkipAcronym_def sl)
    then show ?thesis
    proof cases
      case 1
      from nonTechWords_last[OF this] last show ?thesis by simp
    next
      case 2
      with lu y(2) have "length (snd y) + 8 < length (snd (None :: nat option, ?u))"
        by simp
      from long_match_ends_word[OF y(1) this] d(3) last show ?thesis by simp
    qed
  qed
qed

section \<open>Searching in a piece of the text\<close>

lemma regexExec_before:
  "regexExec r s q = Some (i, e) \<Longrightarrow> q \<le> p \<Longrightarrow> p < i \<Longrightarrow> matchAt r s p = None"
proof (induction r s q rule: regexExec.induct)
  case (1 r s q)
  show ?case
  proof (cases "matchAt r s q")
    case (Some e')
    with "1.prems"(1) have "i = q"
      by (subst (asm) regexExec.simps) (simp split: if_splits)
    with "1.prems"(2,3) show ?thesis by simp
  next
    case None
    with "1.prems"(1) have le: "\<not> length s < q" and rec: "regexExec r s (q + 1) = Some (i, e)"
      by (subst (asm) regexExec.simps, simp split: if_splits)+
    show ?thesis
    proof (cases "p = q")
      case True
      with None show ?thesis by simp
    next
      case False
      with "1.prems"(2) have "q + 1 \<le> p" by simp
      from "1.IH"[OF le None rec this "1.prems"(3)] show ?thesis .
    qed
  qed
qed

lemma regexExec_None_iff:
  "regexExec r s q = None \<longleftrightarrow> (\<forall>p. q \<le> p \<and> p \<le> length s \<longrightarrow> matchAt r s p = None)"
proof (induction r s q rule: regexExec.induct)
  case (1 r s q)
  let ?none = "\<lambda>q. \<forall>p. q \<le> p \<and> p \<le> length s \<longrightarrow> matchAt r s p = None"
  show ?case
  proof (cases "length s < q")
    case True
    have 1: "regexExec r s q = None" by (subst regexExec.simps) (simp add: True)
    have 2: "?none q"
    proof (intro allI impI)
      fix p assume "q \<le> p \<and> p \<le> length s"
      with True have False by simp
      then show "matchAt r s p = None" ..
    qed
    show ?thesis
    proof
      show "?none q" by (rule 2)
    next
      show "regexExec r s q = None" by (rule 1)
    qed
  next
    case le: False
    show ?thesis
    proof (cases "matchAt r s q")
      case (Some e')
      have 1: "regexExec r s q \<noteq> None"
        by (subst regexExec.simps) (simp add: le Some)
      have here: "q \<le> q \<and> q \<le> length s" "matchAt r s q \<noteq> None"
        using le Some by simp_all
      have 2: "\<not> ?none q"
      proof
        assume "?none q"
        then have "q \<le> q \<and> q \<le> length s \<longrightarrow> matchAt r s q = None" by (rule spec)
        with here show False by (simp only: simp_thms)
      qed
      show ?thesis
      proof
        assume "regexExec r s q = None"
        with 1 show "?none q" by contradiction
      next
        assume "?none q"
        with 2 show "regexExec r s q = None" by contradiction
      qed
    next
      case None
      have "regexExec r s q = regexExec r s (q + 1)"
        by (subst regexExec.simps) (simp add: le None)
      then have 1: "regexExec r s q = None \<longleftrightarrow> regexExec r s (q + 1) = None"
        by (simp only:)
      have 2: "?none q \<longleftrightarrow> ?none (q + 1)"
      proof
        assume h: "?none q"
        show "?none (q + 1)"
        proof (intro allI impI)
          fix p assume "q + 1 \<le> p \<and> p \<le> length s"
          then have "q \<le> p \<and> p \<le> length s" by simp
          with h show "matchAt r s p = None" by blast
        qed
      next
        assume h: "?none (q + 1)"
        show "?none q"
        proof (intro allI impI)
          fix p assume p: "q \<le> p \<and> p \<le> length s"
          show "matchAt r s p = None"
          proof (cases "p = q")
            case True
            with None show ?thesis by simp
          next
            case False
            with p have "q + 1 \<le> p \<and> p \<le> length s" by simp
            with h show ?thesis by blast
          qed
        qed
      qed
      have 3: "regexExec r s (q + 1) = None \<longleftrightarrow> ?none (q + 1)"
        by (rule "1.IH"[OF le None])
      note 1
      also note 3
      also note 2[symmetric]
      finally show ?thesis .
    qed
  qed
qed

lemma regexExec_first:
  assumes "q \<le> i" "i \<le> length s" "matchAt r s i = Some e"
    and "\<And>p. q \<le> p \<Longrightarrow> p < i \<Longrightarrow> matchAt r s p = None"
  shows "regexExec r s q = Some (i, e)"
  using assms
proof (induction "i - q" arbitrary: q)
  case 0
  then have "q = i" by simp
  with "0.prems"(2,3) show ?case by (subst regexExec.simps) simp
next
  case (Suc n)
  then have lt: "q < i" by simp
  with Suc.prems(4)[of q] have none: "matchAt r s q = None" by simp
  have "regexExec r s (q + 1) = Some (i, e)"
  proof (rule Suc.hyps(1))
    show "n = i - (q + 1)" using Suc.hyps(2) by simp
    show "q + 1 \<le> i" using lt by simp
    show "\<And>p. q + 1 \<le> p \<Longrightarrow> p < i \<Longrightarrow> matchAt r s p = None" using Suc.prems(4) by simp
  qed (use Suc.prems in simp_all)
  with none lt Suc.prems(2) show ?case by (subst regexExec.simps) simp
qed

lemma matchAt_at_end: "length s \<le> p \<Longrightarrow> matchAt acronymPattern s p = None"
  by (simp add: matchAt_acronymPattern bodyMatch_first)

lemma regexExec_slice_None:
  assumes "a \<le> q" "q \<le> b" "b \<le> length s"
    and right: "b = length s \<or> \<not> is_word (s ! (b - 1))"
    and left: "a = 0 \<or> at_boundary (Some (s ! (a - 1)), drop a s)"
    and none: "\<And>p. q \<le> p \<Longrightarrow> p < b \<Longrightarrow> matchAt acronymPattern s p = None"
  shows "regexExec acronymPattern (slice s a b) (q - a) = None"
proof -
  have lg: "length (slice s a b) = b - a" using assms(3) by (simp add: slice_def)
  show ?thesis unfolding regexExec_None_iff
  proof (intro allI impI)
    fix p' assume "q - a \<le> p' \<and> p' \<le> length (slice s a b)"
    with lg have p': "q - a \<le> p'" "p' \<le> b - a" by simp_all
    show "matchAt acronymPattern (slice s a b) p' = None"
    proof (cases "p' < b - a")
      case False
      with p'(2) lg have "length (slice s a b) \<le> p'" by simp
      then show ?thesis by (rule matchAt_at_end)
    next
      case True
      let ?p = "p' + a"
      have 1: "a \<le> ?p" "?p < b" "q \<le> ?p" using True p'(1) by simp_all
      have l: "a = 0 \<or> a < ?p \<or> at_boundary (Some (s ! (a - 1)), drop a s)"
        using left by blast
      from matchAt_slice(1)[OF 1(1) 1(2) assms(3) right l none[OF 1(3) 1(2)]]
      show ?thesis by simp
    qed
  qed
qed

lemma regexExec_slice_Some:
  assumes "a \<le> q" "q \<le> i" "i < b" "b \<le> length s"
    and right: "b = length s \<or> \<not> is_word (s ! (b - 1))"
    and left: "a = 0 \<or> at_boundary (Some (s ! (a - 1)), drop a s)"
    and none: "\<And>p. q \<le> p \<Longrightarrow> p < i \<Longrightarrow> matchAt acronymPattern s p = None"
    and some: "matchAt acronymPattern s i = Some e" "e < b \<or> b = length s"
  shows "regexExec acronymPattern (slice s a b) (q - a) = Some (i - a, e - a)"
proof (rule regexExec_first)
  have lg: "length (slice s a b) = b - a" using assms(4) by (simp add: slice_def)
  show "q - a \<le> i - a" using assms(2) by simp
  show "i - a \<le> length (slice s a b)" using assms(3) lg by simp
  have ai: "a \<le> i" using assms(1,2) by simp
  have l: "a = 0 \<or> a < i \<or> at_boundary (Some (s ! (a - 1)), drop a s)" using left by blast
  from matchAt_slice(2)[OF ai assms(3) assms(4) right l some]
  show "matchAt acronymPattern (slice s a b) (i - a) = Some (e - a)" .
  fix p' assume p': "q - a \<le> p'" "p' < i - a"
  let ?p = "p' + a"
  have 1: "a \<le> ?p" "?p < b" "q \<le> ?p" "?p < i" using p' assms(3) by simp_all
  have l': "a = 0 \<or> a < ?p \<or> at_boundary (Some (s ! (a - 1)), drop a s)" using left by blast
  from matchAt_slice(1)[OF 1(1) 1(2) assms(4) right l' none[OF 1(3) 1(4)]]
  show "matchAt acronymPattern (slice s a b) p' = None" by simp
qed

section \<open>Running the segmenter twice\<close>

lemma nextAccepted_Some:
  "nextAccepted s q = Some (i, e) \<Longrightarrow>
   q \<le> i \<and> matchAt acronymPattern s i = Some e \<and> \<not> shouldSkipAcronym (slice s i e)"
proof (induction s q rule: nextAccepted.induct)
  case (1 s q)
  from "1.prems" obtain i' e' where ex: "regexExec acronymPattern s q = Some (i', e')"
    by (subst (asm) nextAccepted.simps) (auto split: option.splits)
  from regexExec_acronymPattern[OF ex] regexExec_Some[OF ex]
  have b: "q \<le> i'" "i' < e'" "matchAt acronymPattern s i' = Some e'" by simp_all
  show ?case
  proof (cases "shouldSkipAcronym (slice s i' e')")
    case True
    with "1.prems" ex have "nextAccepted s e' = Some (i, e)"
      by (subst (asm) nextAccepted.simps) simp
    from "1.IH"[OF ex refl True this] b show ?thesis by simp
  next
    case False
    with "1.prems" ex have "i = i'" "e = e'"
      by (subst (asm) nextAccepted.simps, simp)+
    with b False show ?thesis by simp
  qed
qed

lemma nextAccepted_short:
  assumes "length s < 2"
  shows "nextAccepted s q = None"
proof (cases "regexExec acronymPattern s q")
  case None
  then show ?thesis by (subst nextAccepted.simps) simp
next
  case (Some x)
  then obtain i e where "regexExec acronymPattern s q = Some (i, e)" by (cases x) simp
  from regexExec_acronymPattern[OF this] assms show ?thesis by simp
qed

text \<open>The loop of \<^verbatim>\<open>processTextNode\<close>, from one added span to the next.\<close>

lemma scanLoop_nextAccepted:
  "scanLoop s q L F ts cx =
     (case nextAccepted s q of
        None \<Rightarrow> (L, F, ts, cx)
      | Some (i, e) \<Rightarrow>
          scanLoop s e e
            (F @ (if L < i then [Text (slice s L i)] else []) @ [markSpan (slice s i e)])
            (ts @ (if slice s i e \<in> set ts then [] else [slice s i e]))
            (slice s (i - 50) (min (length s) (e + 50))))"
proof (induction s q rule: nextAccepted.induct)
  case (1 s q)
  show ?case
  proof (cases "regexExec acronymPattern s q")
    case None
    then show ?thesis
      by (subst scanLoop.simps, subst nextAccepted.simps) simp
  next
    case (Some x)
    then obtain i e where ex: "regexExec acronymPattern s q = Some (i, e)" by (cases x) simp
    from regexExec_acronymPattern[OF ex] have len: "i + length (slice s i e) = e"
      by (auto simp add: slice_def min_def)
    show ?thesis
    proof (cases "shouldSkipAcronym (slice s i e)")
      case True
      have 1: "scanLoop s q L F ts cx = scanLoop s e L F ts cx"
        by (subst scanLoop.simps) (simp add: ex True)
      have 2: "nextAccepted s q = nextAccepted s e"
        by (subst nextAccepted.simps) (simp add: ex True)
      from "1.IH"[OF ex refl True] show ?thesis unfolding 1 2 .
    next
      case False
      have 1: "nextAccepted s q = Some (i, e)"
        by (subst nextAccepted.simps) (simp add: ex False)
      show ?thesis unfolding 1
        by (subst scanLoop.simps) (simp add: ex False len)
    qed
  qed
qed

lemma slice_slice:
  assumes "a \<le> i" "i \<le> e" "e \<le> b" "b \<le> length s"
  shows "slice (slice s a b) (i - a) (e - a) = slice s i e"
proof -
  have "drop (i - a) (take (b - a) (drop a s)) = take (b - i) (drop i s)"
    using assms by (simp add: drop_take)
  moreover have "e - a - (i - a) = e - i" using assms by simp
  moreover have "min (e - i) (b - i) = e - i" using assms by simp
  ultimately show ?thesis by (simp add: slice_def)
qed

text \<open>
  The text between two spans holds no match that would get a span.  Let \<open>a\<close> be the
  start of the text or the end of a match, and let the next span start at \<open>b\<close> (or let
  there be none and \<open>b\<close> be the end of the text).  Then the search in the piece from \<open>a\<close>
  to \<open>b\<close> finds what the search in the text found between \<open>a\<close> and \<open>b\<close>, which are
  skipped matches only.
\<close>

lemma gap_no_accepted:
  "a \<le> q \<Longrightarrow> q \<le> b \<Longrightarrow> b \<le> length s \<Longrightarrow>
   a = 0 \<or> at_boundary (Some (s ! (a - 1)), drop a s) \<Longrightarrow>
   (nextAccepted s q = None \<and> b = length s) \<or> (\<exists>e. nextAccepted s q = Some (b, e)) \<Longrightarrow>
   nextAccepted (slice s a b) (q - a) = None"
proof (induction s q rule: nextAccepted.induct)
  case (1 s q)
  note aq = "1.prems"(1) and qb = "1.prems"(2) and bs = "1.prems"(3)
    and left = "1.prems"(4) and stop = "1.prems"(5)
  let ?g = "slice s a b"
  have right: "b = length s \<or> b = 0 \<or> \<not> is_word (s ! (b - 1))"
  proof (cases "b = length s")
    case False
    with stop obtain e' where "nextAccepted s q = Some (b, e')" by auto
    from nextAccepted_Some[OF this] have "matchAt acronymPattern s b = Some e'" by simp
    from matchAt_facts(4)[OF this] show ?thesis by simp
  qed simp
  show ?case
  proof (cases "b = 0")
    case True
    then have "length ?g < 2" by (simp add: slice_def)
    then show ?thesis by (rule nextAccepted_short)
  next
    case b0: False
    with right have right': "b = length s \<or> \<not> is_word (s ! (b - 1))" by simp
    show ?thesis
    proof (cases "regexExec acronymPattern s q")
      case None
      then have na: "nextAccepted s q = None" by (subst nextAccepted.simps) simp
      with stop have "b = length s" by auto
      from None have "\<forall>p. q \<le> p \<and> p \<le> length s \<longrightarrow> matchAt acronymPattern s p = None"
        by (simp only: regexExec_None_iff)
      then have "\<And>p. q \<le> p \<Longrightarrow> p < b \<Longrightarrow> matchAt acronymPattern s p = None"
        using bs by (meson le_trans less_imp_le_nat)
      from regexExec_slice_None[OF aq qb bs right' left this]
      show ?thesis by (subst nextAccepted.simps) simp
    next
      case (Some x)
      then obtain i e where ex: "regexExec acronymPattern s q = Some (i, e)" by (cases x) simp
      from regexExec_acronymPattern[OF ex] regexExec_Some[OF ex]
      have ie: "q \<le> i" "i + 2 \<le> e" "e \<le> length s" "matchAt acronymPattern s i = Some e"
        by simp_all
      have before: "\<And>p. q \<le> p \<Longrightarrow> p < i \<Longrightarrow> matchAt acronymPattern s p = None"
        by (rule regexExec_before[OF ex])
      show ?thesis
      proof (cases "shouldSkipAcronym (slice s i e)")
        case False
        have "nextAccepted s q = Some (i, e)"
          by (subst nextAccepted.simps) (simp add: ex False)
        with stop have "i = b" by auto
        with before have "\<And>p. q \<le> p \<Longrightarrow> p < b \<Longrightarrow> matchAt acronymPattern s p = None"
          by simp
        from regexExec_slice_None[OF aq qb bs right' left this]
        show ?thesis by (subst nextAccepted.simps) simp
      next
        case True
        have na: "nextAccepted s q = nextAccepted s e"
          by (subst nextAccepted.simps) (simp add: ex True)
        with stop have stop': "(nextAccepted s e = None \<and> b = length s) \<or>
                               (\<exists>e'. nextAccepted s e = Some (b, e'))" by simp
        have eb: "e \<le> b"
        proof (cases "b = length s")
          case True
          with ie(3) show ?thesis by simp
        next
          case False
          with stop' obtain e' where "nextAccepted s e = Some (b, e')" by auto
          from nextAccepted_Some[OF this] show ?thesis by simp
        qed
        have ae: "a \<le> e" using aq ie(1,2) by simp
        have rec: "nextAccepted ?g (e - a) = None"
          by (rule "1.IH"[OF ex refl True ae eb bs left stop'])
        have ib: "i < b" using ie(2) eb by simp
        have cut: "e < b \<or> b = length s"
        proof (cases "b = length s")
          case False
          with right' have nw: "\<not> is_word (s ! (b - 1))" by simp
          from matchAt_facts(6)[OF ie(4) True] have "is_word (s ! (e - 1))" .
          with nw have "e \<noteq> b" by auto
          with eb show ?thesis by simp
        qed simp
        from regexExec_slice_Some[OF aq ie(1) ib bs right' left before ie(4) cut]
        have ex': "regexExec acronymPattern ?g (q - a) = Some (i - a, e - a)" .
        have ai: "a \<le> i" using aq ie(1) by simp
        have ile: "i \<le> e" using ie(2) by simp
        have sl: "slice ?g (i - a) (e - a) = slice s i e"
          by (rule slice_slice[OF ai ile eb bs])
        have "nextAccepted ?g (q - a) = nextAccepted ?g (e - a)"
          by (subst nextAccepted.simps) (simp add: ex' sl True)
        with rec show ?thesis by simp
      qed
    qed
  qed
qed

lemma gap_untouched:
  assumes "a \<le> b" "b \<le> length s"
    and "a = 0 \<or> at_boundary (Some (s ! (a - 1)), drop a s)"
    and "(nextAccepted s a = None \<and> b = length s) \<or> (\<exists>e. nextAccepted s a = Some (b, e))"
  shows "fst (processTextNode (slice s a b)) = Text (slice s a b)"
proof -
  let ?g = "slice s a b"
  from gap_no_accepted[OF le_refl assms] have none: "nextAccepted ?g 0 = None" by simp
  have "scanLoop ?g 0 0 [] [] [] = (0, [], [], [])"
    by (subst scanLoop_nextAccepted) (simp add: none)
  then show ?thesis by (simp add: processTextNode_def)
qed

lemma scanLoop_settled:
  "L \<le> length s \<Longrightarrow> L = 0 \<or> at_boundary (Some (s ! (L - 1)), drop L s) \<Longrightarrow>
   list_all settled F \<Longrightarrow> scanLoop s L L F ts cx = (L', F', ts', cx') \<Longrightarrow>
   list_all settled F' \<and> L' \<le> length s \<and>
   (L' = 0 \<or> at_boundary (Some (s ! (L' - 1)), drop L' s)) \<and> nextAccepted s L' = None"
proof (induction "length s - L" arbitrary: L F ts cx rule: less_induct)
  case less
  note Ls = less.prems(1) and left = less.prems(2) and F = less.prems(3) and run = less.prems(4)
  show ?case
  proof (cases "nextAccepted s L")
    case None
    with run have "L' = L" "F' = F"
      by (subst (asm) scanLoop_nextAccepted, simp)+
    with None Ls left F show ?thesis by simp
  next
    case (Some x)
    then obtain i e where na: "nextAccepted s L = Some (i, e)" by (cases x) simp
    from nextAccepted_Some[OF na] have Li: "L \<le> i" and m: "matchAt acronymPattern s i = Some e"
      by simp_all
    from matchAt_facts(1,2,5)[OF m]
    have ie: "i + 2 \<le> e" "e \<le> length s" and left': "at_boundary (Some (s ! (e - 1)), drop e s)"
      by simp_all
    let ?F = "F @ (if L < i then [Text (slice s L i)] else []) @ [markSpan (slice s i e)]"
    have gap: "settled (Text (slice s L i))"
    proof -
      have "i \<le> length s" using ie by simp
      from gap_untouched[OF Li this left] na
      show ?thesis by (simp add: settled_def)
    qed
    have "settled (markSpan (slice s i e))" by (auto simp: settled_def)
    with gap F have F': "list_all settled ?F" by simp
    from run na have run': "scanLoop s e e ?F (ts @ (if slice s i e \<in> set ts then [] else [slice s i e]))
            (slice s (i - 50) (min (length s) (e + 50))) = (L', F', ts', cx')"
      by (subst (asm) scanLoop_nextAccepted) simp
    have dec: "length s - e < length s - L" using Li ie by simp
    have l: "e = 0 \<or> at_boundary (Some (s ! (e - 1)), drop e s)" using left' by simp
    from less.hyps[OF dec ie(2) l F' run'] show ?thesis .
  qed
qed

lemma processTextNode_settled:
  "fst (processTextNode s) = Text s \<or>
   (\<exists>fr. fst (processTextNode s) = Element (js ''SPAN'') [] None [] fr \<and> list_all settled fr)"
proof (cases "length s < 2")
  case True
  then show ?thesis by (simp add: processTextNode_def)
next
  case False
  obtain L' F' ts' cx' where run: "scanLoop s 0 0 [] [] [] = (L', F', ts', cx')"
    by (cases "scanLoop s 0 0 [] [] []") auto
  have "list_all settled F' \<and> L' \<le> length s \<and>
        (L' = 0 \<or> at_boundary (Some (s ! (L' - 1)), drop L' s)) \<and> nextAccepted s L' = None"
    by (rule scanLoop_settled[OF _ _ _ run]) simp_all
  then have F': "list_all settled F'" and Ls: "L' \<le> length s"
    and left: "L' = 0 \<or> at_boundary (Some (s ! (L' - 1)), drop L' s)"
    and none: "nextAccepted s L' = None" by simp_all
  have "settled (Text (slice s L' (length s)))"
    using gap_untouched[OF Ls le_refl left] none by (simp add: settled_def)
  with F' have "list_all settled
      (F' @ (if L' < length s then [Text (slice s L' (length s))] else []))" by simp
  with False run show ?thesis by (simp add: processTextNode_def Let_def)
qed

lemma acceptNode_markSpan: "\<not> acceptNode (markSpan acronym)"
  by (simp add: acceptNode_def markSpan_def)

lemma acceptNode_container: "acceptNode (Element (js ''SPAN'') [] None [] fr)"
  by (simp add: acceptNode_def opaqueTags_def js_def toLowerCase_def lowerUnit_def)

lemma processUnder_settled:
  assumes "settled f"
  shows "processUnder (Element (js ''SPAN'') [] None [] fr) f = f"
proof -
  from assms consider acronym where "f = markSpan acronym"
    | g where "f = Text g" "fst (processTextNode g) = Text g"
    by (auto simp: settled_def)
  then show ?thesis
  proof cases
    case 1
    have "processUnder (markSpan acronym) (Text acronym) = Text acronym"
      by (simp add: acceptNode_markSpan)
    then have "processUnder (Element (js ''SPAN'') [] None [] fr) (markSpan acronym) = markSpan acronym"
      by (simp add: markSpan_def)
    with 1 show ?thesis by simp
  next
    case 2
    then show ?thesis by (simp add: acceptNode_container)
  qed
qed

text \<open>A second pass over what a first pass left changes nothing.\<close>

lemma processUnder_idem:
  "acceptNode parent' = acceptNode parent \<Longrightarrow>
   processUnder parent' (processUnder parent n) = processUnder parent n"
proof (induction n arbitrary: parent parent')
  case (Text t)
  show ?case
  proof (cases "acceptNode parent")
    case False
    with Text show ?thesis by simp
  next
    case True
    from processTextNode_settled[of t] consider "fst (processTextNode t) = Text t"
      | fr where "fst (processTextNode t) = Element (js ''SPAN'') [] None [] fr" "list_all settled fr"
      by auto
    then show ?thesis
    proof cases
      case 1
      with True Text show ?thesis by simp
    next
      case 2
      have "map (processUnder (Element (js ''SPAN'') [] None [] fr)) fs = fs"
        if "list_all settled fs" for fs
        using that by (induction fs) (simp_all add: processUnder_settled)
      from this[OF 2(2)] 2(1) True show ?thesis by simp
    qed
  qed
next
  case (Element tg cl ad at ch)
  let ?E = "Element tg cl ad at ch"
  let ?E' = "Element tg cl ad at (map (processUnder ?E) ch)"
  have acc: "acceptNode ?E' = acceptNode ?E" by (simp add: acceptNode_def)
  have "map (processUnder ?E') (map (processUnder ?E) ch) = map (processUnder ?E) ch"
    using Element.IH[OF _ acc] by simp
  then show ?case by simp
qed

text \<open>
  Claim C8.  \<^verbatim>\<open>processPage\<close> run a second time over a subtree it has processed
  leaves the subtree as it is: no span is added.  The walker hands over no text node
  whose parent is a marked span or a \<^verbatim>\<open>script\<close>, \<^verbatim>\<open>style\<close>, \<^verbatim>\<open>code\<close> or \<^verbatim>\<open>pre\<close>
  element, and the text left between the spans holds no match that would be marked.
\<close>

theorem segmentation_idempotent:
  "processPage (processPage root) = processPage root
   \<and> (\<forall>acronym. \<not> acceptNode (markSpan acronym))
   \<and> (\<forall>cl ad at ch. \<not> acceptNode (Element (js ''SCRIPT'') cl ad at ch)
         \<and> \<not> acceptNode (Element (js ''STYLE'') cl ad at ch)
         \<and> \<not> acceptNode (Element (js ''CODE'') cl ad at ch)
         \<and> \<not> acceptNode (Element (js ''PRE'') cl ad at ch))"
proof -
  have idem: "processPage (processPage root) = processPage root"
  proof (cases root)
    case (Text t)
    then show ?thesis by (simp add: processPage_def)
  next
    case (Element tg cl ad at ch)
    let ?E' = "Element tg cl ad at (map (processUnder root) ch)"
    have p: "processPage root = ?E'" using Element by (simp add: processPage_def)
    have acc: "acceptNode ?E' = acceptNode root" using Element by (simp add: acceptNode_def)
    have "map (processUnder ?E') (map (processUnder root) ch) = map (processUnder root) ch"
      using processUnder_idem[OF acc] by simp
    then have "processPage ?E' = ?E'" by (simp add: processPage_def)
    with p show ?thesis by simp
  qed
  have opaque: "\<not> acceptNode (Element (js ''SCRIPT'') cl ad at ch)
         \<and> \<not> acceptNode (Element (js ''STYLE'') cl ad at ch)
         \<and> \<not> acceptNode (Element (js ''CODE'') cl ad at ch)
         \<and> \<not> acceptNode (Element (js ''PRE'') cl ad at ch)" for cl ad at ch
    by (simp add: acceptNode_def opaqueTags_def js_def toLowerCase_def lowerUnit_def)
  from idem acceptNode_markSpan opaque show ?thesis by blast
qed

theorem segmentation_idempotent_witness:
  "processPage (processPage
      (Element (js ''P'') [] None [] [Text (js ''Check the GPU and HDR settings'')])) =
   Element (js ''P'') [] None []
     [Element (js ''SPAN'') [] None []
        [Text (js ''Check the ''), markSpan (js ''GPU''), Text (js '' and ''),
         markSpan (js ''HDR''), Text (js '' settings'')]]"
proof -
  have a: "processTextNode (js ''Check the GPU and HDR settings'') =
     (Element (js ''SPAN'') [] None []
        [Text (js ''Check the ''), markSpan (js ''GPU''), Text (js '' and ''),
         markSpan (js ''HDR''), Text (js '' settings'')],
      [js ''GPU'', js ''HDR''], js ''Check the GPU and HDR settings'')"
    by code_simp
  have acc: "acceptNode (Element (js ''P'') [] None [] [Text (js ''Check the GPU and HDR settings'')])"
    by code_simp
  have b: "processPage (Element (js ''P'') [] None [] [Text (js ''Check the GPU and HDR settings'')]) =
       Element (js ''P'') [] None []
         [Element (js ''SPAN'') [] None []
            [Text (js ''Check the ''), markSpan (js ''GPU''), Text (js '' and ''),
             markSpan (js ''HDR''), Text (js '' settings'')]]"
    by (simp add: processPage_def acc a)
  from segmentation_idempotent[of "Element (js ''P'') [] None [] [Text (js ''Check the GPU and HDR settings'')]"]
  have "processPage (processPage
      (Element (js ''P'') [] None [] [Text (js ''Check the GPU and HDR settings'')])) =
    processPage (Element (js ''P'') [] None [] [Text (js ''Check the GPU and HDR settings'')])"
    by blast
  with b show ?thesis by simp
qed

section \<open>Tokens of capitals\<close>

text \<open>
  A run of two or more capitals that stands between non-word characters (or the ends
  of the text) is matched as a whole.
\<close>

lemma rep_upper_head:
  "us \<noteq> [] \<Longrightarrow> list_all (\<lambda>c. in_cls c [(65, 90)]) us \<Longrightarrow> mn \<le> length us \<Longrightarrow>
   t = [] \<or> \<not> in_cls (hd t) [(65, 90)] \<Longrightarrow>
   \<exists>rest. rep_ends (ends upper) mn None (pv, us @ t) = (Some (last us), t) # rest"
proof (induction us arbitrary: pv mn)
  case Nil
  then show ?case by simp
next
  case (Cons c us)
  from Cons.prems(2) have c: "in_cls c [(65, 90)]" and us: "list_all (\<lambda>c. in_cls c [(65, 90)]) us"
    by simp_all
  have step: "ends upper (pv, c # us @ t) = [(Some c, us @ t)]"
    using c by (simp add: upper_def)
  have unf: "rep_ends (ends upper) mn None (pv, (c # us) @ t) =
             rep_ends (ends upper) (mn - 1) None (Some c, us @ t)
               @ (if mn = 0 then [(pv, (c # us) @ t)] else [])"
    by (subst rep_ends.simps) (simp add: step)
  show ?case
  proof (cases "us = []")
    case True
    with Cons.prems(3) have mn: "mn - 1 = 0" by simp
    have "ends upper (Some c, t) = []"
      using Cons.prems(4) by (cases t) (simp_all add: upper_def)
    then have "rep_ends (ends upper) 0 None (Some c, t) = [(Some c, t)]"
      by (subst rep_ends.simps) simp
    with unf mn True show ?thesis by simp
  next
    case False
    from Cons.prems(3) have "mn - 1 \<le> length us" by simp
    from Cons.IH[OF False us this Cons.prems(4), of "Some c"] obtain rest where
      "rep_ends (ends upper) (mn - 1) None (Some c, us @ t) = (Some (last us), t) # rest" by blast
    with unf False show ?thesis by simp
  qed
qed

lemma capitals_matchAt:
  assumes len: "2 \<le> length us" and caps: "list_all (\<lambda>c. 65 \<le> c \<and> c \<le> 90) us"
    and before: "pre = [] \<or> \<not> is_word (last pre)"
    and after: "t = [] \<or> \<not> is_word (hd t)"
  shows "matchAt acronymPattern (pre @ us @ t) (length pre) = Some (length pre + length us)"
proof -
  let ?s = "pre @ us @ t"
  define pv where "pv = (if length pre = 0 then None else Some (?s ! (length pre - 1)))"
  let ?x = "(pv, us @ t)"
  let ?y = "(Some (last us), t)"
  define C where "C = Seq (Rep 0 None digit) (Rep 0 None upper)"
  define B where "B = Rep 0 None C"
  define others where "others =
    Alt (Seq (lit ''i'') (Seq upper (Rep 1 None lower)))
    (Alt (Seq (lit ''e'') (Seq upper (Rep 1 None lower)))
         (Seq (Alt (lit ''Node'') (Alt (lit ''Web'') (Alt (lit ''React'')
                (Alt (lit ''Vue'') (lit ''Next'')))))
              (Seq (Rep 0 (Some 1) (lit ''.''))
                   (Rep 0 (Some 1) (Alt (lit ''js'') (lit ''JS''))))))"
  have body: "acronymBody = Alt (Seq (Rep 2 None upper) B) others"
    by (simp add: acronymBody_def B_def C_def others_def)
  from len have ne: "us \<noteq> []" by auto
  have caps': "list_all (\<lambda>c. in_cls c [(65, 90)]) us"
    using caps by (simp add: in_cls_def)
  have wl: "is_word (last us)"
  proof -
    from ne have "last us \<in> set us" by simp
    with caps have "65 \<le> last us \<and> last us \<le> 90" by (simp add: list_all_iff)
    then show ?thesis by (simp add: is_word_def in_cls_def)
  qed
  have wh: "is_word (hd us)"
  proof -
    from ne have "hd us \<in> set us" by simp
    with caps have "65 \<le> hd us \<and> hd us \<le> 90" by (simp add: list_all_iff)
    then show ?thesis by (simp add: is_word_def in_cls_def)
  qed
  have nt: "t = [] \<or> (\<not> in_cls (hd t) [(65, 90)] \<and> \<not> in_cls (hd t) [(48, 57)])"
    using after by (auto simp: is_word_def in_cls_def)
  then have nu: "t = [] \<or> \<not> in_cls (hd t) [(65, 90)]" by blast
  from rep_upper_head[OF ne caps' len nu, of pv] obtain rest where
    run: "rep_ends (ends upper) 2 None ?x = ?y # rest" by blast
  have up0: "ends upper ?y = []" and dg0: "ends digit ?y = []"
    using nt by (cases t; simp add: upper_def digit_def)+
  have "rep_ends (ends digit) 0 None ?y = [?y]"
    by (subst rep_ends.simps) (simp add: dg0)
  moreover have "rep_ends (ends upper) 0 None ?y = [?y]"
    by (subst rep_ends.simps) (simp add: up0)
  ultimately have inner: "ends C ?y = [?y]"
    by (simp add: C_def)
  have "rep_ends (ends C) 0 None ?y = [?y]"
    by (subst rep_ends.simps) (simp add: inner)
  then have star: "ends B ?y = [?y]"
    by (simp add: B_def)
  have "ends (Seq (Rep 2 None upper) B) ?x = ?y # concat (map (ends B) rest)"
    by (simp add: run star)
  then have eb: "ends acronymBody ?x = ?y # (concat (map (ends B) rest) @ ends others ?x)"
    by (simp add: body)
  have bx: "at_boundary ?x"
  proof (cases "pre = []")
    case True
    with wh ne show ?thesis by (cases us) (simp_all add: pv_def)
  next
    case False
    then have "?s ! (length pre - 1) = last pre"
      by (simp add: nth_append last_conv_nth)
    with False before wh ne show ?thesis by (cases us) (simp_all add: pv_def)
  qed
  have "at_boundary ?y" using wl after by (cases t) simp_all
  with eb have fl: "filter at_boundary (ends acronymBody ?x) =
                ?y # filter at_boundary (concat (map (ends B) rest) @ ends others ?x)"
    by simp
  have "ends acronymPattern ?x =
        (if at_boundary ?x then filter at_boundary (ends acronymBody ?x) else [])"
    unfolding acronymPattern_def by (rule ends_bounded)
  with bx fl have "ends acronymPattern ?x =
                ?y # filter at_boundary (concat (map (ends B) rest) @ ends others ?x)"
    by (simp only: if_True)
  moreover have "(if length pre = 0 then None else Some (?s ! (length pre - 1)),
                  drop (length pre) ?s) = ?x"
    by (simp add: pv_def)
  ultimately show ?thesis unfolding matchAt_def by (simp del: append_assoc)
qed

lemma capitals_regexExec:
  assumes "2 \<le> length us" "list_all (\<lambda>c. 65 \<le> c \<and> c \<le> 90) us"
  shows "regexExec acronymPattern us 0 = Some (0, length us)"
proof -
  from capitals_matchAt[OF assms, of "[]" "[]"]
  have "matchAt acronymPattern us 0 = Some (length us)" by simp
  then show ?thesis by (subst regexExec.simps) simp
qed

lemma capitals13: "regexExec acronymPattern (js ''ABCDEFGHIJKLM'') 0 = Some (0, 13)"
  using capitals_regexExec[of "js ''ABCDEFGHIJKLM''"] by (simp add: js_def)

lemma capitals12: "regexExec acronymPattern (js ''ABCDEFGHIJKL'') 0 = Some (0, 12)"
  using capitals_regexExec[of "js ''ABCDEFGHIJKL''"] by (simp add: js_def)

section \<open>Detector: exclusion\<close>

text \<open>
  Claim C5.  \<^verbatim>\<open>shouldSkipAcronym\<close> rejects a token exactly when it is one of
  \<open>USA, UK, EU, UN, Mr, Mrs, Ms, Dr, AM, PM\<close> or longer than 12 code units.  In the
  text \<open>The USA uses an API for PM updates\<close> the pattern finds \<open>USA\<close> at 4, \<open>API\<close> at
  16 and \<open>PM\<close> at 24 and nothing else; \<open>USA\<close> and \<open>PM\<close> are skipped and \<open>API\<close>
  alone is marked, after the 16 code units before it.  A token of 13 capitals is
  matched by the pattern and rejected, one of 12 is matched and accepted.
\<close>

theorem detector_exclusion:
  "(\<forall>token. shouldSkipAcronym token \<longleftrightarrow>
      token \<in> {js ''USA'', js ''UK'', js ''EU'', js ''UN'', js ''Mr'', js ''Mrs'', js ''Ms'',
                js ''Dr'', js ''AM'', js ''PM''} \<or> 12 < length token)
   \<and> regexExec acronymPattern (js ''The USA uses an API for PM updates'') 0 = Some (4, 7)
   \<and> slice (js ''The USA uses an API for PM updates'') 4 7 = js ''USA''
   \<and> shouldSkipAcronym (js ''USA'')
   \<and> regexExec acronymPattern (js ''The USA uses an API for PM updates'') 7 = Some (16, 19)
   \<and> slice (js ''The USA uses an API for PM updates'') 16 19 = js ''API''
   \<and> \<not> shouldSkipAcronym (js ''API'')
   \<and> regexExec acronymPattern (js ''The USA uses an API for PM updates'') 19 = Some (24, 26)
   \<and> slice (js ''The USA uses an API for PM updates'') 24 26 = js ''PM''
   \<and> shouldSkipAcronym (js ''PM'')
   \<and> regexExec acronymPattern (js ''The USA uses an API for PM updates'') 26 = None
   \<and> processTextNode (js ''The USA uses an API for PM updates'') =
        (Element (js ''SPAN'') [] None []
           [Text (js ''The USA uses an ''), markSpan (js ''API''), Text (js '' for PM updates'')],
         [js ''API''], js ''The USA uses an API for PM updates'')
   \<and> length (js ''The USA uses an '') = 16
   \<and> regexExec acronymPattern (js ''ABCDEFGHIJKLM'') 0 = Some (0, 13)
   \<and> shouldSkipAcronym (js ''ABCDEFGHIJKLM'')
   \<and> regexExec acronymPattern (js ''ABCDEFGHIJKL'') 0 = Some (0, 12)
   \<and> \<not> shouldSkipAcronym (js ''ABCDEFGHIJKL'')"
proof -
  have skip: "\<forall>token. shouldSkipAcronym token \<longleftrightarrow>
      token \<in> {js ''USA'', js ''UK'', js ''EU'', js ''UN'', js ''Mr'', js ''Mrs'', js ''Ms'',
                js ''Dr'', js ''AM'', js ''PM''} \<or> 12 < length token"
    by (simp add: shouldSkipAcronym_def nonTechWords_def)
  have m1: "regexExec acronymPattern (js ''The USA uses an API for PM updates'') 0 = Some (4, 7)"
    by code_simp
  have m2: "regexExec acronymPattern (js ''The USA uses an API for PM updates'') 7 = Some (16, 19)"
    by code_simp
  have m3: "regexExec acronymPattern (js ''The USA uses an API for PM updates'') 19 = Some (24, 26)"
    by code_simp
  have m4: "regexExec acronymPattern (js ''The USA uses an API for PM updates'') 26 = None"
    by code_simp
  have s1: "slice (js ''The USA uses an API for PM updates'') 4 7 = js ''USA''"
    by (simp add: slice_def js_def)
  have s2: "slice (js ''The USA uses an API for PM updates'') 16 19 = js ''API''"
    by (simp add: slice_def js_def)
  have s3: "slice (js ''The USA uses an API for PM updates'') 24 26 = js ''PM''"
    by (simp add: slice_def js_def)
  have k1: "shouldSkipAcronym (js ''USA'')"
    by (simp add: shouldSkipAcronym_def nonTechWords_def)
  have k2: "\<not> shouldSkipAcronym (js ''API'')"
    by (simp add: shouldSkipAcronym_def nonTechWords_def js_def)
  have k3: "shouldSkipAcronym (js ''PM'')"
    by (simp add: shouldSkipAcronym_def nonTechWords_def)
  have p: "processTextNode (js ''The USA uses an API for PM updates'') =
        (Element (js ''SPAN'') [] None []
           [Text (js ''The USA uses an ''), markSpan (js ''API''), Text (js '' for PM updates'')],
         [js ''API''], js ''The USA uses an API for PM updates'')"
    by code_simp
  have l: "length (js ''The USA uses an '') = 16"
    by (simp add: js_def)
  have b13: "shouldSkipAcronym (js ''ABCDEFGHIJKLM'')"
    by (simp add: shouldSkipAcronym_def js_def)
  have b12: "\<not> shouldSkipAcronym (js ''ABCDEFGHIJKL'')"
    by (simp add: shouldSkipAcronym_def nonTechWords_def js_def)
  from skip m1 s1 k1 m2 s2 k2 m3 s3 k3 m4 p l capitals13 b13 capitals12 b12 show ?thesis
    by (intro conjI)
qed

end
